theory Spec2Isabelle
  imports Main
begin

section \<open>Data model of shell.c\<close>

text \<open>
  A C string pointer (\<^verbatim>\<open>char *\<close>) is a \<open>string option\<close>: \<open>None\<close> is \<^verbatim>\<open>NULL\<close>.
  Arrays of pointers (\<^verbatim>\<open>args\<close>, \<^verbatim>\<open>firstCommand\<close>, \<^verbatim>\<open>secondCommand\<close>) are lists
  of fixed length; an access outside the list is a fault, never a silent default.
\<close>

type_synonym cstr = "string option"

datatype fault = OutOfBounds | NullDeref

definition MAX_LINE :: nat where
  "MAX_LINE = 80"

definition argSize :: nat where
  "argSize = MAX_LINE div 2 + 1"

definition STDIN_FILENO :: int where
  "STDIN_FILENO = 0"

definition STDOUT_FILENO :: int where
  "STDOUT_FILENO = 1"

definition rd :: "cstr list \<Rightarrow> nat \<Rightarrow> fault + cstr" where
  "rd a k = (if k < length a then Inr (a ! k) else Inl OutOfBounds)"

definition store :: "cstr list \<Rightarrow> nat \<Rightarrow> cstr \<Rightarrow> fault + cstr list" where
  "store a k v = (if k < length a then Inr (a[k := v]) else Inl OutOfBounds)"

text \<open>The state that survives a loop iteration: the variables declared before \<^verbatim>\<open>while\<close>.\<close>

record shell_state =
  should_run :: int
  history :: string
  args :: "cstr list"

datatype open_flag = O_RDONLY | O_WRONLY | O_CREAT | O_TRUNC

text \<open>
  What a process does to the outside world, in program order. \<open>Execvp\<close> carries the
  file pointer and the argument strings up to the first \<^verbatim>\<open>NULL\<close> of the array passed.
\<close>

datatype syscall =
    Printf string
  | Fflush
  | Perror string
  | Fork
  | Wait
  | MkPipe
  | Open cstr "open_flag list" nat
  | Dup2 int int
  | Close int
  | Execvp cstr "string list"
  | Exit int

text \<open>
  How the code of one loop iteration ends in the process that runs it: it reaches the
  end of the loop body (\<open>Continues\<close>), calls \<^verbatim>\<open>exit\<close>, is replaced by the program of that
  name through a successful \<^verbatim>\<open>execvp\<close>, is killed by a fault, or is left in a call that
  never returns (\<open>Blocked\<close>).
\<close>

datatype outcome = Continues | Exited int | Replaced string "string list" | Fault fault | Blocked

text \<open>
  The answers of the operating system to the calls of one iteration. \<^verbatim>\<open>fork\<close> returns
  in two processes; \<open>childPid\<close> and \<open>gChildPid\<close> are the values it returned in the process
  being followed (positive in the parent, \<open>0\<close> in the new process, negative on failure).
  \<open>execvp_ok\<close> says that \<^verbatim>\<open>execvp\<close> replaced the process (it returns \<open>-1\<close> otherwise);
  the code consults it for calls that name a program only.
  \<open>wait2_returns\<close> says that \<^verbatim>\<open>wait(&status2)\<close> of line 201 returns: it does not when the
  grandchild never ends. \<open>junk\<close> is the indeterminate initial content of the
  variable-length arrays.
\<close>

record os_env =
  childPid :: int
  pipe_ret :: int
  fd1_READ :: int
  fd1_WRITE :: int
  gChildPid :: int
  wait2_returns :: bool
  open_ret :: "cstr \<Rightarrow> open_flag list \<Rightarrow> int"
  execvp_ok :: "cstr \<Rightarrow> string list \<Rightarrow> bool"
  junk :: "nat \<Rightarrow> cstr"

section \<open>Line interpretation (lines 112--151)\<close>

text \<open>
  \<^verbatim>\<open>strtok(s, " ")\<close>: skip leading spaces; no token if nothing is left; otherwise the
  token runs to the next space, which is overwritten with the terminator, and the saved
  position is the character after it. The second component is the text at the saved
  position, which \<^verbatim>\<open>strtok(NULL, " ")\<close> continues from.
\<close>

definition strtok :: "string \<Rightarrow> (string \<times> string) option" where
  "strtok s =
     (let t = dropWhile (\<lambda>c. c = CHR '' '') s
      in if t = [] then None
         else Some (takeWhile (\<lambda>c. c \<noteq> CHR '' '') t,
                    drop 1 (dropWhile (\<lambda>c. c \<noteq> CHR '' '') t)))"

lemma strtok_shorter: "strtok s = Some (tok, r) \<Longrightarrow> length r < length s"
proof -
  assume a: "strtok s = Some (tok, r)"
  define t where "t = dropWhile (\<lambda>c. c = CHR '' '') s"
  define u where "u = dropWhile (\<lambda>c. c \<noteq> CHR '' '') t"
  have ne: "t \<noteq> []"
    using a unfolding strtok_def t_def Let_def by (simp split: if_splits)
  have r: "r = drop 1 u"
    using a unfolding strtok_def t_def u_def Let_def by (simp split: if_splits)
  have ut: "length u \<le> length t"
    unfolding u_def by (rule length_dropWhile_le)
  have ts: "length t \<le> length s"
    unfolding t_def by (rule length_dropWhile_le)
  have "length r < length t"
  proof (cases u)
    case Nil
    with ne r show ?thesis by simp
  next
    case (Cons x xs)
    with r ut show ?thesis by simp
  qed
  with ts show ?thesis by simp
qed

text \<open>
  Lines 120--125. \<^verbatim>\<open>args[numArgs] = strtok(...)\<close> is written before the loop test, so
  the terminating \<^verbatim>\<open>NULL\<close> is stored at index \<open>numArgs\<close> as well.
\<close>

function tokenize :: "cstr list \<Rightarrow> nat \<Rightarrow> string \<Rightarrow> fault + (cstr list \<times> nat)" where
  "tokenize a numArgs saved =
     (case strtok saved of
        None \<Rightarrow>
          (case store a numArgs None of
             Inl e \<Rightarrow> Inl e
           | Inr a' \<Rightarrow> Inr (a', numArgs))
      | Some (tok, saved') \<Rightarrow>
          (case store a numArgs (Some tok) of
             Inl e \<Rightarrow> Inl e
           | Inr a' \<Rightarrow> tokenize a' (numArgs + 1) saved'))"
  by pat_completeness auto
termination
  by (relation "measure (\<lambda>(a, n, s). length s)") (auto dest: strtok_shorter)

declare tokenize.simps [simp del]

text \<open>
  Lines 131--151: the scan for the first special token. The result is
  \<open>(ioRedirect, needPipe, i)\<close>. \<^verbatim>\<open>strcmp\<close> dereferences \<^verbatim>\<open>args[i]\<close>.
\<close>

function find_special :: "cstr list \<Rightarrow> nat \<Rightarrow> nat \<Rightarrow> fault + (int \<times> int \<times> nat)" where
  "find_special a numArgs i =
     (if int i \<le> int numArgs - 1 then
        (case rd a i of
           Inl e \<Rightarrow> Inl e
         | Inr None \<Rightarrow> Inl NullDeref
         | Inr (Some s) \<Rightarrow>
             if s = ''<'' then Inr (1, 0, i)
             else if s = ''>'' then Inr (2, 0, i)
             else if s = ''|'' then Inr (0, 1, i)
             else find_special a numArgs (i + 1))
      else Inr (0, 0, i))"
  by pat_completeness auto
termination
  by (relation "measure (\<lambda>(a, n, i). n - i)") auto

declare find_special.simps [simp del]

section \<open>Process orchestration (lines 153--292)\<close>

text \<open>
  A variable-length array of \<open>n\<close> pointers, with indeterminate initial content.
\<close>

definition vla :: "os_env \<Rightarrow> nat \<Rightarrow> cstr list" where
  "vla env n = map (junk env) [0..<n]"

text \<open>
  \<^verbatim>\<open>for (int j = 0; j < n; j++) dst[j] = src[j + off];\<close> (lines 183--186 with
  \<open>off = 0\<close>, lines 189--192 with \<open>off = i + 1\<close>). The bound is a C \<^verbatim>\<open>int\<close> expression.
\<close>

function copy_loop :: "cstr list \<Rightarrow> cstr list \<Rightarrow> nat \<Rightarrow> nat \<Rightarrow> int \<Rightarrow> fault + cstr list" where
  "copy_loop dst src off j n =
     (if int j < n then
        (case rd src (j + off) of
           Inl e \<Rightarrow> Inl e
         | Inr v \<Rightarrow>
             (case store dst j v of
                Inl e \<Rightarrow> Inl e
              | Inr dst' \<Rightarrow> copy_loop dst' src off (j + 1) n))
      else Inr dst)"
  by pat_completeness auto
termination
  by (relation "measure (\<lambda>(dst, src, off, j, n). nat (n - int j))") auto

declare copy_loop.simps [simp del]

text \<open>Lines 179--193: the two sub-commands of a pipe, as \<open>(firstCommand, secondCommand)\<close>.\<close>

definition split_pipe :: "os_env \<Rightarrow> cstr list \<Rightarrow> nat \<Rightarrow> nat \<Rightarrow> fault + (cstr list \<times> cstr list)" where
  "split_pipe env a numArgs i =
     (case copy_loop (vla env (i + 1)) a 0 0 (int i) of
        Inl e \<Rightarrow> Inl e
      | Inr fc \<Rightarrow>
          (case store fc i None of
             Inl e \<Rightarrow> Inl e
           | Inr firstCommand \<Rightarrow>
               (case copy_loop (vla env (nat (int numArgs - int i))) a (i + 1) 0
                       (int numArgs - int i - 1) of
                  Inl e \<Rightarrow> Inl e
                | Inr sc \<Rightarrow>
                    (case store sc (nat (int numArgs - int i - 1)) None of
                       Inl e \<Rightarrow> Inl e
                     | Inr secondCommand \<Rightarrow> Inr (firstCommand, secondCommand)))))"

text \<open>
  The argument strings \<^verbatim>\<open>execvp\<close> reads from an array: those before the first \<^verbatim>\<open>NULL\<close>.
  Every array the code passes holds a \<^verbatim>\<open>NULL\<close>: it stores one before each call.
\<close>

definition c_argv :: "cstr list \<Rightarrow> string list" where
  "c_argv a = map the (takeWhile (\<lambda>p. p \<noteq> None) a)"

text \<open>
  \<^verbatim>\<open>if (execvp(file, argv) == -1) { perror("Exec failed"); exit(1); }\<close>
  (lines 206--210, 219--223 and 270--274). \<^verbatim>\<open>execvp\<close> returns only when it fails, so the
  statements after these blocks (line 224, lines 276--285) are never reached. With a null
  file pointer the call is undefined: the C library reads the name through the pointer,
  the process is killed by the fault and reports nothing, so neither \<^verbatim>\<open>perror\<close> nor
  \<^verbatim>\<open>exit\<close> is reached.
\<close>

definition exec_or_exit :: "os_env \<Rightarrow> cstr \<Rightarrow> cstr list \<Rightarrow> syscall list \<times> outcome" where
  "exec_or_exit env file argv =
     (case file of
        None \<Rightarrow> ([Execvp None (c_argv argv)], Fault NullDeref)
      | Some name \<Rightarrow>
          if execvp_ok env (Some name) (c_argv argv)
          then ([Execvp (Some name) (c_argv argv)], Replaced name (c_argv argv))
          else ([Execvp (Some name) (c_argv argv), Perror ''Exec failed'', Exit 1], Exited 1))"

text \<open>
  Lines 168--231: the child when \<open>needPipe\<close> is set. The pipe owner makes the calls after
  \<^verbatim>\<open>wait\<close> only when that call returns; it is left in it otherwise.
\<close>

definition run_pipe :: "os_env \<Rightarrow> cstr list \<Rightarrow> nat \<Rightarrow> nat \<Rightarrow> syscall list \<times> outcome" where
  "run_pipe env a numArgs i =
     (if pipe_ret env = -1 then ([MkPipe, Perror ''Pipe failed'', Exit 1], Exited 1)
      else
        (case split_pipe env a numArgs i of
           Inl e \<Rightarrow> ([MkPipe], Fault e)
         | Inr (firstCommand, secondCommand) \<Rightarrow>
             if gChildPid env > 0 then
               (if \<not> wait2_returns env then ([MkPipe, Fork, Wait], Blocked)
                else
                  (case rd secondCommand 0 of
                     Inl e \<Rightarrow> ([MkPipe, Fork, Wait, Dup2 (fd1_READ env) STDIN_FILENO,
                                Close (fd1_READ env), Close (fd1_WRITE env)], Fault e)
                   | Inr file \<Rightarrow>
                       (let (tr, out) = exec_or_exit env file secondCommand
                        in ([MkPipe, Fork, Wait, Dup2 (fd1_READ env) STDIN_FILENO,
                             Close (fd1_READ env), Close (fd1_WRITE env)] @ tr, out))))
             else if gChildPid env = 0 then
               (case rd firstCommand 0 of
                  Inl e \<Rightarrow> ([MkPipe, Fork, Dup2 (fd1_WRITE env) STDOUT_FILENO,
                             Close (fd1_WRITE env), Close (fd1_READ env)], Fault e)
                | Inr file \<Rightarrow>
                    (let (tr, out) = exec_or_exit env file firstCommand
                     in ([MkPipe, Fork, Dup2 (fd1_WRITE env) STDOUT_FILENO,
                          Close (fd1_WRITE env), Close (fd1_READ env)] @ tr, out)))
             else ([MkPipe, Fork, Perror ''Child fork failed''], Continues)))"

text \<open>Lines 247--248 and 264--265: \<^verbatim>\<open>args[i] = NULL; args[i + 1] = NULL;\<close>\<close>

definition remove_redirect :: "cstr list \<Rightarrow> nat \<Rightarrow> fault + cstr list" where
  "remove_redirect a i =
     (case store a i None of
        Inl e \<Rightarrow> Inl e
      | Inr a' \<Rightarrow> store a' (i + 1) None)"

text \<open>Lines 269--274: \<^verbatim>\<open>execvp(args[0], args)\<close>.\<close>

definition exec_args :: "os_env \<Rightarrow> cstr list \<Rightarrow> syscall list \<times> outcome" where
  "exec_args env a =
     (case rd a 0 of
        Inl e \<Rightarrow> ([], Fault e)
      | Inr file \<Rightarrow> exec_or_exit env file a)"

text \<open>
  Lines 234--286: the child when no pipe is needed. The file is opened with
  \<^verbatim>\<open>args[i + 1]\<close> before that pointer is compared with \<^verbatim>\<open>NULL\<close>. Mode \<^verbatim>\<open>0666\<close> is 438.
\<close>

definition run_single :: "os_env \<Rightarrow> cstr list \<Rightarrow> nat \<Rightarrow> int \<Rightarrow> syscall list \<times> outcome" where
  "run_single env a i ioRedirect =
     (if ioRedirect = 1 then
        (case rd a (i + 1) of
           Inl e \<Rightarrow> ([], Fault e)
         | Inr name \<Rightarrow>
             (let fd2 = open_ret env name [O_RDONLY]
              in if fd2 = -1 \<or> name = None
                 then ([Open name [O_RDONLY] 438, Perror ''Input file failed'', Exit 1], Exited 1)
                 else
                   (case remove_redirect a i of
                      Inl e \<Rightarrow> ([Open name [O_RDONLY] 438], Fault e)
                    | Inr a' \<Rightarrow>
                        (let (tr, out) = exec_args env a'
                         in ([Open name [O_RDONLY] 438, Dup2 fd2 STDIN_FILENO] @ tr, out)))))
      else if ioRedirect = 2 then
        (case rd a (i + 1) of
           Inl e \<Rightarrow> ([], Fault e)
         | Inr name \<Rightarrow>
             (let fd2 = open_ret env name [O_WRONLY, O_CREAT, O_TRUNC]
              in if fd2 = -1 \<or> name = None
                 then ([Open name [O_WRONLY, O_CREAT, O_TRUNC] 438,
                        Perror ''Output file failed'', Exit 1], Exited 1)
                 else
                   (case remove_redirect a i of
                      Inl e \<Rightarrow> ([Open name [O_WRONLY, O_CREAT, O_TRUNC] 438], Fault e)
                    | Inr a' \<Rightarrow>
                        (let (tr, out) = exec_args env a'
                         in ([Open name [O_WRONLY, O_CREAT, O_TRUNC] 438,
                              Dup2 fd2 STDOUT_FILENO] @ tr, out)))))
      else exec_args env a)"

section \<open>The loop body (lines 68--293)\<close>

text \<open>The local variables of an iteration when \<^verbatim>\<open>fork\<close> is reached (line 155).\<close>

record parsed =
  p_bgProcess :: bool
  p_args :: "cstr list"
  p_numArgs :: nat
  p_ioRedirect :: int
  p_needPipe :: int
  p_i :: nat

text \<open>
  Lines 112--151 for the command text \<open>theCommand\<close>, with \<open>a\<close> the content of
  \<^verbatim>\<open>args\<close> before. \<^verbatim>\<open>theCommand[strlen(theCommand) - 1]\<close> is outside the buffer when the
  text is empty.
\<close>

definition interpret_line :: "cstr list \<Rightarrow> string \<Rightarrow> fault + parsed" where
  "interpret_line a theCommand =
     (if theCommand = [] then Inl OutOfBounds
      else
        (let bgProcess = (last theCommand = CHR ''&'');
             stripped = (if bgProcess then butlast theCommand else theCommand)
         in case tokenize a 0 stripped of
              Inl e \<Rightarrow> Inl e
            | Inr (a', numArgs) \<Rightarrow>
                (case find_special a' numArgs 1 of
                   Inl e \<Rightarrow> Inl e
                 | Inr (ioRedirect, needPipe, i) \<Rightarrow>
                     Inr \<lparr>p_bgProcess = bgProcess, p_args = a', p_numArgs = numArgs,
                          p_ioRedirect = ioRedirect, p_needPipe = needPipe, p_i = i\<rparr>)))"

text \<open>
  Lines 153--292. The code after \<^verbatim>\<open>fork\<close> is followed in the process where \<^verbatim>\<open>fork\<close>
  returned \<open>childPid env\<close>: the shell itself when it is not \<open>0\<close>, the new child when it is.
  The trace of the shell lists its \<^verbatim>\<open>wait(&status)\<close> of line 161 and goes on to the end
  of the iteration; the call lasts as long as the child does, which \<open>shell_system\<close> below
  describes.
\<close>

definition orchestrate :: "os_env \<Rightarrow> parsed \<Rightarrow> syscall list \<times> outcome" where
  "orchestrate env p =
     (if childPid env > 0 then
        (if \<not> p_bgProcess p then [Fork, Wait] else [Fork], Continues)
      else if childPid env = 0 then
        (let (tr, out) =
               (if p_needPipe p \<noteq> 0 then run_pipe env (p_args p) (p_numArgs p) (p_i p)
                else run_single env (p_args p) (p_i p) (p_ioRedirect p))
         in (Fork # tr, out))
      else ([Fork, Perror ''Fork failed''], Continues))"

definition dispatch :: "os_env \<Rightarrow> shell_state \<Rightarrow> string \<Rightarrow> syscall list \<times> outcome \<times> shell_state" where
  "dispatch env st theCommand =
     (case interpret_line (args st) theCommand of
        Inl e \<Rightarrow> ([], Fault e, st)
      | Inr p \<Rightarrow>
          (let (tr, out) = orchestrate env p
           in (tr, out, st\<lparr>args := p_args p\<rparr>)))"

text \<open>
  One iteration, given the text \<open>buf\<close> that \<^verbatim>\<open>fgets\<close> left in \<^verbatim>\<open>theCommand\<close>. Line 76
  overwrites its last character, whatever it is.
\<close>

definition loop_body :: "os_env \<Rightarrow> shell_state \<Rightarrow> string \<Rightarrow> syscall list \<times> outcome \<times> shell_state" where
  "loop_body env st buf =
     (if buf = [] then ([Printf ''osh> '', Fflush], Fault OutOfBounds, st)
      else
        (let theCommand = butlast buf
         in if theCommand = [] then ([Printf ''osh> '', Fflush], Continues, st)
            else if theCommand = ''exit''
              then ([Printf ''osh> '', Fflush], Continues, st\<lparr>should_run := 0\<rparr>)
            else if theCommand = ''!!'' then
              (if history st = []
               then ([Printf ''osh> '', Fflush, Printf ''No command in history.\<newline>''],
                     Continues, st)
               else
                 (let (tr, out, st') = dispatch env st (history st)
                  in ([Printf ''osh> '', Fflush,
                       Printf (''Previous command: '' @ history st @ ''\<newline>'')] @ tr,
                      out, st')))
            else
              (let (tr, out, st') = dispatch env (st\<lparr>history := theCommand\<rparr>) theCommand
               in ([Printf ''osh> '', Fflush] @ tr, out, st'))))"

text \<open>
  \<^verbatim>\<open>while (should_run)\<close> over the successive buffer contents of the iterations that are
  run, each with the answers of the operating system for that iteration.
  \<^verbatim>\<open>main\<close> returns 0 when the loop ends; with the
  input used up the process is left waiting in \<^verbatim>\<open>fgets\<close> (\<open>Continues\<close>).
\<close>

fun main_loop :: "shell_state \<Rightarrow> (os_env \<times> string) list \<Rightarrow> syscall list \<times> outcome \<times> shell_state" where
  "main_loop st [] = ([], (if should_run st = 0 then Exited 0 else Continues), st)"
| "main_loop st ((env, buf) # rest) =
     (if should_run st = 0 then ([], Exited 0, st)
      else
        (case loop_body env st buf of
           (tr, Continues, st') \<Rightarrow>
             (let (tr', out, st'') = main_loop st' rest in (tr @ tr', out, st''))
         | (tr, out, st') \<Rightarrow> (tr, out, st')))"

text \<open>Lines 59--64: the initial state; \<open>args0\<close> is the indeterminate content of \<^verbatim>\<open>args\<close>.\<close>

definition init_state :: "cstr list \<Rightarrow> shell_state" where
  "init_state args0 = \<lparr>should_run = 1, history = [], args = args0\<rparr>"

definition banner :: string where
  "banner = ''Unix C Shell by Korosh Moosavi. Begin typing commands, or type \"exit\" to quit.\<newline>''"

definition main :: "cstr list \<Rightarrow> (os_env \<times> string) list \<Rightarrow> syscall list \<times> outcome \<times> shell_state" where
  "main args0 ins =
     (let (tr, out, st) = main_loop (init_state args0) ins
      in (Printf banner # tr, out, st))"

section \<open>Vocabulary of the specification\<close>

text \<open>The tokens of a text: the successive results of \<^verbatim>\<open>strtok\<close> until it returns \<^verbatim>\<open>NULL\<close>.\<close>

function tokens :: "string \<Rightarrow> string list" where
  "tokens s = (case strtok s of None \<Rightarrow> [] | Some (tok, r) \<Rightarrow> tok # tokens r)"
  by pat_completeness auto
termination
  by (relation "measure length") (auto dest: strtok_shorter)

declare tokens.simps [simp del]

text \<open>The operator tokens.\<close>

definition is_operator :: "string \<Rightarrow> bool" where
  "is_operator s = (s = ''<'' \<or> s = ''>'' \<or> s = ''|'')"

datatype classification = Plain | InputRedirect | OutputRedirect | Pipe

text \<open>
  The classification the orchestration acts on: line 168 tests \<^verbatim>\<open>needPipe\<close> first, lines 237
  and 253 then test \<^verbatim>\<open>ioRedirect\<close> against 1 and 2.
\<close>

definition classification_of :: "parsed \<Rightarrow> classification" where
  "classification_of p =
     (if p_needPipe p \<noteq> 0 then Pipe
      else if p_ioRedirect p = 1 then InputRedirect
      else if p_ioRedirect p = 2 then OutputRedirect
      else Plain)"

text \<open>The classification an operator token stands for.\<close>

definition op_class :: "string \<Rightarrow> classification" where
  "op_class s =
     (if s = ''<'' then InputRedirect
      else if s = ''>'' then OutputRedirect
      else if s = ''|'' then Pipe
      else Plain)"

text \<open>
  The index of the first operator token, scanning from index 1: index 0 is not looked at.
\<close>

definition first_operator :: "string list \<Rightarrow> nat option" where
  "first_operator toks = List.find (\<lambda>k. is_operator (toks ! k)) [1..<length toks]"

text \<open>The background flag of a command text, and the text without its marker.\<close>

definition background_flag :: "string \<Rightarrow> bool" where
  "background_flag l = (last l = CHR ''&'')"

definition strip_background :: "string \<Rightarrow> string" where
  "strip_background l = (if background_flag l then butlast l else l)"

section \<open>An environment for the examples\<close>

text \<open>
  An environment for the examples: \<^verbatim>\<open>fork\<close> returns \<open>cpid\<close> and then \<open>gpid\<close>, \<^verbatim>\<open>pipe\<close>
  succeeds with the descriptors 3 and 4, the wait of line 201 returns, \<^verbatim>\<open>open\<close> returns 3,
  and \<^verbatim>\<open>execvp\<close> succeeds when \<open>ok\<close> holds.
\<close>

definition demo_env :: "int \<Rightarrow> int \<Rightarrow> bool \<Rightarrow> os_env" where
  "demo_env cpid gpid ok =
     \<lparr>childPid = cpid, pipe_ret = 0, fd1_READ = 3, fd1_WRITE = 4, gChildPid = gpid,
      wait2_returns = True, open_ret = (\<lambda>name flags. 3), execvp_ok = (\<lambda>file av. ok), junk = (\<lambda>k. None)\<rparr>"

section \<open>Vocabulary of the proofs\<close>

text \<open>
  Proof vocabulary for traces: no \<^verbatim>\<open>execvp\<close> call occurs in a trace; and every
  \<^verbatim>\<open>execvp\<close> call of a run that names a program and fails is followed by the error
  report and \<^verbatim>\<open>exit(1)\<close>, which end the run.
\<close>

definition exec_checked :: "os_env \<Rightarrow> syscall list \<times> outcome \<Rightarrow> bool" where
  "exec_checked env r =
     (\<forall>name av. Execvp (Some name) av \<in> set (fst r) \<and> \<not> execvp_ok env (Some name) av \<longrightarrow>
        snd r = Exited 1 \<and>
        (\<exists>pre. fst r = pre @ [Execvp (Some name) av, Perror ''Exec failed'', Exit 1]))"

definition no_exec :: "syscall list \<Rightarrow> bool" where
  "no_exec tr = (\<forall>f av. Execvp f av \<notin> set tr)"

section \<open>The history slot of the specification\<close>

text \<open>
  The history slot of the specification: a command is an entered line that is not empty,
  not \<^verbatim>\<open>exit\<close> and not \<^verbatim>\<open>!!\<close>; the slot holds the latest command, or its initial
  content \<open>h\<close> when there was none. The lines entered are the buffer contents without
  their last character, up to the first \<^verbatim>\<open>exit\<close>, which ends the loop.
\<close>

definition is_command :: "string \<Rightarrow> bool" where
  "is_command l = (l \<noteq> [] \<and> l \<noteq> ''exit'' \<and> l \<noteq> ''!!'')"

definition latest_command :: "string \<Rightarrow> string list \<Rightarrow> string" where
  "latest_command h ls = (if filter is_command ls = [] then h else last (filter is_command ls))"

definition entered_lines :: "(os_env \<times> string) list \<Rightarrow> string list" where
  "entered_lines ins = takeWhile (\<lambda>l. l \<noteq> ''exit'') (map (\<lambda>(env, buf). butlast buf) ins)"

section \<open>A model of the file system calls\<close>

text \<open>
  A model of the system calls that touch files, after POSIX; it is not code of the
  repository. The files are a map from names to contents; a process has a descriptor
  table giving, for a descriptor that refers to a file opened here, the file and whether
  it was opened for writing. \<^verbatim>\<open>open\<close> with \<^verbatim>\<open>O_CREAT\<close> creates a missing file empty; with
  \<^verbatim>\<open>O_TRUNC\<close> and write access it cuts an existing file to length zero; the file offset
  starts at 0. A program that is executed writes its output \<open>prog av\<close> through
  descriptor 1, from the offset on, over what the file holds.
\<close>

record world =
  files :: "string \<rightharpoonup> string"
  fdtab :: "int \<rightharpoonup> string \<times> bool"

definition posix_open :: "(string \<rightharpoonup> string) \<Rightarrow> string \<Rightarrow> open_flag list \<Rightarrow> (string \<rightharpoonup> string)" where
  "posix_open fs name flags =
     (case fs name of
        None \<Rightarrow> if O_CREAT \<in> set flags then fs(name \<mapsto> []) else fs
      | Some old \<Rightarrow>
          if O_TRUNC \<in> set flags \<and> O_WRONLY \<in> set flags then fs(name \<mapsto> []) else fs)"

definition write_from_start :: "string \<Rightarrow> string \<Rightarrow> string" where
  "write_from_start out old = out @ drop (length out) old"

fun effect :: "os_env \<Rightarrow> (string list \<Rightarrow> string) \<Rightarrow> world \<Rightarrow> syscall \<Rightarrow> world" where
  "effect env prog w (Open (Some name) flags mode) =
     (if open_ret env (Some name) flags = -1 then w
      else w\<lparr>files := posix_open (files w) name flags,
             fdtab := (fdtab w)(open_ret env (Some name) flags \<mapsto> (name, O_WRONLY \<in> set flags))\<rparr>)"
| "effect env prog w (Dup2 old new) = w\<lparr>fdtab := (fdtab w)(new := fdtab w old)\<rparr>"
| "effect env prog w (Close fd) = w\<lparr>fdtab := (fdtab w)(fd := None)\<rparr>"
| "effect env prog w (Execvp file av) =
     (if execvp_ok env file av then
        (case fdtab w STDOUT_FILENO of
           Some (name, True) \<Rightarrow>
             (case files w name of
                Some old \<Rightarrow> w\<lparr>files := (files w)(name \<mapsto> write_from_start (prog av) old)\<rparr>
              | None \<Rightarrow> w)
         | _ \<Rightarrow> w)
      else w)"
| "effect env prog w _ = w"

text \<open>
  The files after a new process, which has opened no file yet, has made the calls of \<open>tr\<close>.
\<close>

definition run_child :: "os_env \<Rightarrow> (string list \<Rightarrow> string) \<Rightarrow> (string \<rightharpoonup> string) \<Rightarrow> syscall list \<Rightarrow> (string \<rightharpoonup> string)" where
  "run_child env prog fs tr = files (foldl (effect env prog) \<lparr>files = fs, fdtab = Map.empty\<rparr> tr)"

section \<open>A model of two processes and of \<^verbatim>\<open>wait\<close>\<close>

text \<open>
  The traces above follow one process at a time and list \<^verbatim>\<open>wait\<close> as one call among
  the others. When that call returns is decided by the operating system, which is not
  code of the repository; this section models it, after POSIX, for a process and the
  child its \<^verbatim>\<open>fork\<close> creates.

  A program that has replaced a process through \<^verbatim>\<open>execvp\<close> either finishes, having
  written some output, or runs forever. A pipe holds \<open>pipe_capacity\<close> bytes: a write to
  a full pipe that nobody reads does not return.
\<close>

datatype behaviour = Finishes string | Forever

record machine =
  behaves :: "string \<Rightarrow> string list \<Rightarrow> behaviour"
  pipe_capacity :: nat

text \<open>
  The calls a new process makes itself: those of its trace after the first \<^verbatim>\<open>fork\<close>,
  which is the call that created it.
\<close>

definition own_calls :: "syscall list \<Rightarrow> syscall list" where
  "own_calls tr = drop 1 (dropWhile (\<lambda>c. c \<noteq> Fork) tr)"

text \<open>
  Whether a process whose code ended with the outcome \<open>out\<close> comes to an end. It does
  after \<^verbatim>\<open>exit\<close> and when a fault kills it. After a successful \<^verbatim>\<open>execvp\<close> it does when
  the program finishes and, if its standard output is the pipe (\<open>piped\<close>), what the
  program writes fits into the pipe: the pipe owner reads nothing before the writer has
  ended (lines 201--206). It does not when it is left in a call that never returns, nor
  when it reaches the end of the loop body, where it goes on as a shell.
\<close>

definition ends_after :: "machine \<Rightarrow> bool \<Rightarrow> outcome \<Rightarrow> bool" where
  "ends_after m piped out =
     (case out of
        Continues \<Rightarrow> False
      | Exited n \<Rightarrow> True
      | Replaced name av \<Rightarrow>
          (case behaves m name av of
             Finishes written \<Rightarrow> (if piped then length written \<le> pipe_capacity m else True)
           | Forever \<Rightarrow> False)
      | Fault e \<Rightarrow> True
      | Blocked \<Rightarrow> False)"

text \<open>
  The two processes. The parent has the calls it still has to make; the child is created
  by the parent's first \<^verbatim>\<open>fork\<close>, makes its calls, and then ends if \<open>child_ends\<close> holds and
  stays alive otherwise. The \<open>timeline\<close> holds, in the order in which they happened, the
  calls of both processes, the return of \<^verbatim>\<open>wait\<close> and the end of the child.
\<close>

datatype who = Parent | Child

datatype life = Unborn | Alive | Dead

datatype event = Did who syscall | WaitReturned | ChildEnded

record duo =
  parent_todo :: "syscall list"
  parent_waiting :: bool
  child_todo :: "syscall list"
  child_life :: life
  child_ends :: bool
  timeline :: "event list"

definition start :: "syscall list \<Rightarrow> syscall list \<Rightarrow> bool \<Rightarrow> duo" where
  "start P C e =
     \<lparr>parent_todo = P, parent_waiting = False, child_todo = C, child_life = Unborn,
      child_ends = e, timeline = []\<rparr>"

text \<open>
  One step, taken by the process the scheduler chose; \<open>None\<close> when that process cannot
  move. A parent that has called \<^verbatim>\<open>wait\<close> is inside the call as long as its child is alive:
  the call returns only once the child has ended (at once when there is no child). No
  signal interrupts the call.
\<close>

fun step :: "duo \<Rightarrow> who \<Rightarrow> duo option" where
  "step d Parent =
     (if parent_waiting d then
        (if child_life d = Alive then None
         else Some (d\<lparr>parent_waiting := False, timeline := timeline d @ [WaitReturned]\<rparr>))
      else
        (case parent_todo d of
           [] \<Rightarrow> None
         | c # cs \<Rightarrow>
             Some (d\<lparr>parent_todo := cs, parent_waiting := (c = Wait),
                     child_life := (if c = Fork \<and> child_life d = Unborn then Alive
                                    else child_life d),
                     timeline := timeline d @ [Did Parent c]\<rparr>)))"
| "step d Child =
     (if child_life d \<noteq> Alive then None
      else
        (case child_todo d of
           c # cs \<Rightarrow> Some (d\<lparr>child_todo := cs, timeline := timeline d @ [Did Child c]\<rparr>)
         | [] \<Rightarrow>
             if child_ends d
             then Some (d\<lparr>child_life := Dead, timeline := timeline d @ [ChildEnded]\<rparr>)
             else None))"

text \<open>The steps of a schedule, one after the other; \<open>None\<close> when one of them is impossible.\<close>

fun run :: "duo \<Rightarrow> who list \<Rightarrow> duo option" where
  "run d [] = Some d"
| "run d (w # ws) = (case step d w of None \<Rightarrow> None | Some d' \<Rightarrow> run d' ws)"

text \<open>The calls one of the processes has made in a timeline, in order.\<close>

fun calls :: "who \<Rightarrow> event list \<Rightarrow> syscall list" where
  "calls w [] = []"
| "calls w (Did w' c # es) = (if w' = w then c # calls w es else calls w es)"
| "calls w (WaitReturned # es) = calls w es"
| "calls w (ChildEnded # es) = calls w es"

text \<open>
  The parent has made all its calls and is in none; and a number that every step
  decreases, so that it bounds the length of every schedule.
\<close>

definition parent_done :: "duo \<Rightarrow> bool" where
  "parent_done d = (parent_todo d = [] \<and> \<not> parent_waiting d)"

definition steps_left :: "duo \<Rightarrow> nat" where
  "steps_left d =
     2 * length (parent_todo d) + (if parent_waiting d then 1 else 0) +
     length (child_todo d) + (if child_life d = Dead then 0 else 1)"

text \<open>
  The two arrays of a piped command, as the specification names them: the First-Command
  holds the tokens before the \<^verbatim>\<open>|\<close> at index \<open>i\<close>, the Second-Command those after it,
  each followed by \<^verbatim>\<open>NULL\<close>.
\<close>

definition first_command :: "cstr list \<Rightarrow> nat \<Rightarrow> cstr list" where
  "first_command a i = take i a @ [None]"

definition second_command :: "cstr list \<Rightarrow> nat \<Rightarrow> nat \<Rightarrow> cstr list" where
  "second_command a numArgs i = drop (i + 1) (take numArgs a) @ [None]"

text \<open>
  The first stage of a pipeline, started from the array \<open>cmd\<close> with its output in the
  pipe, comes to an end: it is killed when the name is the null pointer, it exits when
  \<^verbatim>\<open>execvp\<close> fails, and otherwise the program must finish with an output that fits into
  the pipe.
\<close>

definition stage_over :: "machine \<Rightarrow> os_env \<Rightarrow> cstr list \<Rightarrow> bool" where
  "stage_over m env cmd =
     (case cmd ! 0 of
        None \<Rightarrow> True
      | Some name \<Rightarrow>
          if execvp_ok env (Some name) (c_argv cmd)
          then (case behaves m name (c_argv cmd) of
                  Finishes written \<Rightarrow> length written \<le> pipe_capacity m
                | Forever \<Rightarrow> False)
          else True)"

text \<open>
  The pipe owner and the grandchild of a piped command (lines 168--231). The owner's
  calls are those of \<open>run_pipe\<close> in the process where \<^verbatim>\<open>fork\<close> returned a positive value,
  the calls after \<^verbatim>\<open>wait\<close> included: whether they are reached is decided by the steps.
  The grandchild's calls are those of \<open>run_pipe\<close> in the process where \<^verbatim>\<open>fork\<close> returned
  \<open>0\<close>; its output goes to the pipe when it has made the \<^verbatim>\<open>dup2\<close> of line 215.
\<close>

definition pipe_system :: "machine \<Rightarrow> os_env \<Rightarrow> cstr list \<Rightarrow> nat \<Rightarrow> nat \<Rightarrow> duo" where
  "pipe_system m env a numArgs i =
     start (fst (run_pipe (env\<lparr>gChildPid := 1, wait2_returns := True\<rparr>) a numArgs i))
       (own_calls (fst (run_pipe (env\<lparr>gChildPid := 0\<rparr>) a numArgs i)))
       (ends_after m
          (Dup2 (fd1_WRITE env) STDOUT_FILENO
             \<in> set (own_calls (fst (run_pipe (env\<lparr>gChildPid := 0\<rparr>) a numArgs i))))
          (snd (run_pipe (env\<lparr>gChildPid := 0\<rparr>) a numArgs i)))"

text \<open>
  The shell and its child (lines 155--163). The child is the process in which the
  \<^verbatim>\<open>fork\<close> of line 155 returned \<open>0\<close>; for a piped command it is the pipe owner, in which
  the \<^verbatim>\<open>fork\<close> of line 196 did not return \<open>0\<close> (only the sign of that value is tested),
  and whose \<^verbatim>\<open>wait\<close> returns when the first stage comes to an end.
\<close>

definition owner_view :: "machine \<Rightarrow> os_env \<Rightarrow> parsed \<Rightarrow> os_env" where
  "owner_view m env p =
     env\<lparr>childPid := 0,
         gChildPid := (if gChildPid env = 0 then 1 else gChildPid env),
         wait2_returns := stage_over m env (first_command (p_args p) (p_i p))\<rparr>"

definition shell_system :: "machine \<Rightarrow> os_env \<Rightarrow> parsed \<Rightarrow> duo" where
  "shell_system m env p =
     start (fst (orchestrate (env\<lparr>childPid := 1\<rparr>) p))
       (own_calls (fst (orchestrate (owner_view m env p) p)))
       (ends_after m False (snd (orchestrate (owner_view m env p) p)))"

text \<open>A machine for the examples: every program writes \<open>written\<close> and finishes.\<close>

definition demo_machine :: "string \<Rightarrow> nat \<Rightarrow> machine" where
  "demo_machine written cap = \<lparr>behaves = (\<lambda>name av. Finishes written), pipe_capacity = cap\<rparr>"

text \<open>
  Proof vocabulary for the two processes. In a timeline the waits are in order when
  every call the parent makes after its \<^verbatim>\<open>wait\<close> comes after the end of the child, which
  by then has made all the calls of \<open>C\<close>, and every return of \<^verbatim>\<open>wait\<close> comes after the end
  of the child. \<open>phase\<close> says where a parent with the calls \<open>A\<close>, \<^verbatim>\<open>fork\<close>, \<^verbatim>\<open>wait\<close>, \<open>B\<close>
  stands, and \<open>duo_inv\<close> is the invariant of the steps from \<open>start\<close>.
\<close>

definition waits_in_order :: "syscall list \<Rightarrow> event list \<Rightarrow> bool" where
  "waits_in_order C es =
     ((\<forall>pre x post. es = pre @ Did Parent x # post \<and> Did Parent Wait \<in> set pre \<longrightarrow>
         ChildEnded \<in> set pre \<and> calls Child pre = C) \<and>
      (\<forall>pre post. es = pre @ WaitReturned # post \<longrightarrow> ChildEnded \<in> set pre))"

definition phase :: "syscall list \<Rightarrow> syscall list \<Rightarrow> duo \<Rightarrow> bool" where
  "phase A B d =
     ((\<exists>A'. parent_todo d = A' @ Fork # Wait # B \<and> set A' \<subseteq> set A \<and>
            child_life d = Unborn \<and> \<not> parent_waiting d \<and>
            Wait \<notin> set (calls Parent (timeline d))) \<or>
      (parent_todo d = Wait # B \<and> child_life d \<noteq> Unborn \<and> \<not> parent_waiting d \<and>
       Wait \<notin> set (calls Parent (timeline d))) \<or>
      (parent_todo d = B \<and> child_life d \<noteq> Unborn \<and> parent_waiting d) \<or>
      (\<exists>B'. parent_todo d = B' \<and> set B' \<subseteq> set B \<and> child_life d = Dead \<and>
            \<not> parent_waiting d))"

definition duo_inv :: "syscall list \<Rightarrow> syscall list \<Rightarrow> syscall list \<Rightarrow> bool \<Rightarrow> duo \<Rightarrow> bool" where
  "duo_inv A B C e d =
     (child_ends d = e \<and>
      calls Parent (timeline d) @ parent_todo d = A @ Fork # Wait # B \<and>
      calls Child (timeline d) @ child_todo d = C \<and>
      (child_life d = Unborn \<longrightarrow> calls Child (timeline d) = []) \<and>
      (child_life d = Dead \<longrightarrow> ChildEnded \<in> set (timeline d) \<and> child_todo d = [] \<and> e) \<and>
      (ChildEnded \<in> set (timeline d) \<longrightarrow> child_life d = Dead) \<and>
      (WaitReturned \<in> set (timeline d) \<longrightarrow> child_life d = Dead) \<and>
      phase A B d \<and> waits_in_order C (timeline d))"

section \<open>Facts about the code\<close>

lemma tokens_Nil: "tokens [] = []"
  by (simp add: tokens.simps [of "[]"] strtok_def)

lemma strtok_sizes:
  assumes "strtok s = Some (tok, r)"
  shows "tok \<noteq> [] \<and> (r = [] \<or> length r + 2 \<le> length s)"
proof -
  define t where "t = dropWhile (\<lambda>c. c = CHR '' '') s"
  define u where "u = dropWhile (\<lambda>c. c \<noteq> CHR '' '') t"
  have ne: "t \<noteq> []"
    using assms unfolding strtok_def t_def Let_def by (simp split: if_splits)
  have tok: "tok = takeWhile (\<lambda>c. c \<noteq> CHR '' '') t"
    using assms unfolding strtok_def t_def Let_def by (simp split: if_splits)
  have r: "r = drop 1 u"
    using assms unfolding strtok_def t_def u_def Let_def by (simp split: if_splits)
  have hd: "hd t \<noteq> CHR '' ''"
    using ne hd_dropWhile [of "\<lambda>c. c = CHR '' ''" s] unfolding t_def by simp
  have tokne: "tok \<noteq> []"
    using ne hd unfolding tok by (cases t) auto
  have split: "length t = length tok + length u"
    unfolding tok u_def
    by (metis length_append takeWhile_dropWhile_id)
  have ts: "length t \<le> length s"
    unfolding t_def by (rule length_dropWhile_le)
  have "r = [] \<or> length r + 2 \<le> length s"
  proof (cases u)
    case Nil
    with r show ?thesis by simp
  next
    case (Cons x xs)
    with r have "length u = length r + 1" by simp
    moreover from tokne have "1 \<le> length tok" by (cases tok) auto
    ultimately show ?thesis using split ts by simp
  qed
  with tokne show ?thesis by simp
qed

lemma tokens_length: "length (tokens s) \<le> (length s + 1) div 2"
proof (induction s rule: tokens.induct)
  case (1 s)
  show ?case
  proof (cases "strtok s")
    case None
    then show ?thesis by (simp add: tokens.simps [of s])
  next
    case (Some p)
    obtain tok r where p: "p = (tok, r)" by (cases p)
    with Some have st: "strtok s = Some (tok, r)" by simp
    from "1.IH" [OF st refl] have ih: "length (tokens r) \<le> (length r + 1) div 2" .
    from strtok_sizes [OF st] have "r = [] \<or> length r + 2 \<le> length s" by simp
    then show ?thesis
    proof
      assume "r = []"
      then have "tokens r = []" by (simp add: tokens_Nil)
      moreover from strtok_shorter [OF st] have "1 \<le> length s" by simp
      ultimately show ?thesis using st by (simp add: tokens.simps [of s])
    next
      assume "length r + 2 \<le> length s"
      with ih show ?thesis using st by (simp add: tokens.simps [of s])
    qed
  qed
qed

lemma tokenize_ok:
  "n + length (tokens s) < length a \<Longrightarrow>
   tokenize a n s =
     Inr (take n a @ map Some (tokens s) @ None # drop (n + length (tokens s) + 1) a,
          n + length (tokens s))"
proof (induction a n s rule: tokenize.induct)
  case (1 a numArgs saved)
  show ?case
  proof (cases "strtok saved")
    case None
    then have tk: "tokens saved = []" by (simp add: tokens.simps [of saved])
    with "1.prems" have lt: "numArgs < length a" by simp
    show ?thesis
      using None tk lt
      by (simp add: tokenize.simps [of a numArgs saved] store_def upd_conv_take_nth_drop)
  next
    case (Some p)
    obtain tok r where p: "p = (tok, r)" by (cases p)
    with Some have st: "strtok saved = Some (tok, r)" by simp
    have tk: "tokens saved = tok # tokens r" using st by (simp add: tokens.simps [of saved])
    with "1.prems" have lt: "numArgs < length a" and lt': "numArgs + 1 + length (tokens r) < length (a[numArgs := Some tok])" by simp_all
    have sto: "store a numArgs (Some tok) = Inr (a[numArgs := Some tok])"
      using lt by (simp add: store_def)
    have ih: "tokenize (a[numArgs := Some tok]) (numArgs + 1) r =
       Inr (take (numArgs + 1) (a[numArgs := Some tok]) @ map Some (tokens r) @ None # drop (numArgs + 1 + length (tokens r) + 1) (a[numArgs := Some tok]),
          numArgs + 1 + length (tokens r))"
      by (rule "1.IH" [OF st refl sto lt'])
    have tk1: "take (numArgs + 1) (a[numArgs := Some tok]) = take numArgs a @ [Some tok]"
      using lt by (simp add: take_Suc_conv_app_nth)
    show ?thesis
      using st sto ih tk tk1
      by (simp add: tokenize.simps [of a numArgs saved])
  qed
qed

lemma find_special_none:
  "numArgs \<le> length a \<Longrightarrow>
   \<forall>k. i \<le> k \<and> k < numArgs \<longrightarrow> (\<exists>s. a ! k = Some s \<and> \<not> is_operator s) \<Longrightarrow>
   find_special a numArgs i = Inr (0, 0, max i numArgs)"
proof (induction a numArgs i rule: find_special.induct)
  case (1 a numArgs i)
  show ?case
  proof (cases "int i \<le> int numArgs - 1")
    case False
    then show ?thesis by (simp add: find_special.simps [of a numArgs i] max_def)
  next
    case True
    then have lt: "i < numArgs" by simp
    with "1.prems" obtain s where s: "a ! i = Some s" "\<not> is_operator s" by auto
    have r: "rd a i = Inr (Some s)" using lt "1.prems"(1) s by (simp add: rd_def)
    have ns: "s \<noteq> ''<''" "s \<noteq> ''>''" "s \<noteq> ''|''" using s(2) by (auto simp: is_operator_def)
    have "find_special a numArgs (i + 1) = Inr (0, 0, max (i + 1) numArgs)"
      using "1.IH" [OF True r refl ns] "1.prems" by simp
    then show ?thesis
      using True r ns lt by (simp add: find_special.simps [of a numArgs i] max_def)
  qed
qed

lemma find_special_first:
  "i \<le> k \<Longrightarrow> k < numArgs \<Longrightarrow> numArgs \<le> length a \<Longrightarrow>
   a ! k = Some s \<Longrightarrow> is_operator s \<Longrightarrow>
   \<forall>j. i \<le> j \<and> j < k \<longrightarrow> (\<exists>t. a ! j = Some t \<and> \<not> is_operator t) \<Longrightarrow>
   find_special a numArgs i =
     Inr (if s = ''<'' then 1 else if s = ''>'' then 2 else 0,
          if s = ''|'' then 1 else 0, k)"
proof (induction a numArgs i rule: find_special.induct)
  case (1 a numArgs i)
  have lt: "int i \<le> int numArgs - 1" using "1.prems" by simp
  show ?case
  proof (cases "i = k")
    case True
    have r: "rd a i = Inr (Some s)" using True "1.prems" by (simp add: rd_def)
    have "find_special a numArgs i =
        (if s = ''<'' then Inr (1, 0, i) else if s = ''>'' then Inr (2, 0, i)
         else if s = ''|'' then Inr (0, 1, i) else find_special a numArgs (i + 1))"
      using lt r by (subst find_special.simps) simp
    then show ?thesis
      using True "1.prems"(5) by (auto simp: is_operator_def)
  next
    case False
    with "1.prems" have ik: "i < k" by simp
    with "1.prems" obtain t where t: "a ! i = Some t" "\<not> is_operator t" by auto
    have r: "rd a i = Inr (Some t)" using ik "1.prems" t by (simp add: rd_def)
    have ns: "t \<noteq> ''<''" "t \<noteq> ''>''" "t \<noteq> ''|''" using t(2) by (auto simp: is_operator_def)
    have "find_special a numArgs (i + 1) =
       Inr (if s = ''<'' then 1 else if s = ''>'' then 2 else 0, if s = ''|'' then 1 else 0, k)"
      using "1.IH" [OF lt r refl ns] "1.prems" ik by simp
    then show ?thesis
      using lt r ns by (simp add: find_special.simps [of a numArgs i])
  qed
qed

lemma find_special_total:
  "numArgs \<le> length a \<Longrightarrow> \<forall>k < numArgs. a ! k \<noteq> None \<Longrightarrow>
   \<exists>io np i'. find_special a numArgs i = Inr (io, np, i') \<and>
     (io = 0 \<or> io = 1 \<or> io = 2) \<and> (np = 0 \<or> np = 1) \<and> (io = 0 \<or> np = 0) \<and>
     ((io \<noteq> 0 \<or> np \<noteq> 0) \<longrightarrow> i \<le> i' \<and> i' < numArgs)"
proof (induction a numArgs i rule: find_special.induct)
  case (1 a numArgs i)
  show ?case
  proof (cases "int i \<le> int numArgs - 1")
    case False
    then show ?thesis by (simp add: find_special.simps [of a numArgs i])
  next
    case True
    then have lt: "i < numArgs" by simp
    with "1.prems" obtain s where s: "a ! i = Some s" by auto
    have r: "rd a i = Inr (Some s)" using lt "1.prems"(1) s by (simp add: rd_def)
    show ?thesis
    proof (cases "s = ''<'' \<or> s = ''>'' \<or> s = ''|''")
      case True
      then show ?thesis
        using \<open>int i \<le> int numArgs - 1\<close> r lt
        by (auto simp add: find_special.simps [of a numArgs i])
    next
      case False
      then have ns: "s \<noteq> ''<''" "s \<noteq> ''>''" "s \<noteq> ''|''" by auto
      from "1.IH" [OF True r refl ns "1.prems"]
      obtain io np i' where ih: "find_special a numArgs (i + 1) = Inr (io, np, i')"
        "(io = 0 \<or> io = 1 \<or> io = 2)" "(np = 0 \<or> np = 1)" "(io = 0 \<or> np = 0)"
        "((io \<noteq> 0 \<or> np \<noteq> 0) \<longrightarrow> i + 1 \<le> i' \<and> i' < numArgs)" by blast
      have "find_special a numArgs i = Inr (io, np, i')"
        using True r ns ih(1) by (simp add: find_special.simps [of a numArgs i])
      with ih show ?thesis by auto
    qed
  qed
qed


lemma tokenize_bounded:
  assumes "length s \<le> MAX_LINE - 1" and "length a = argSize"
  shows "length (tokens s) \<le> 40 \<and>
         tokenize a 0 s =
           Inr (map Some (tokens s) @ None # drop (length (tokens s) + 1) a,
                length (tokens s))"
proof -
  have "length (tokens s) \<le> (length s + 1) div 2" by (rule tokens_length)
  also have "\<dots> \<le> 40" using assms(1) by (simp add: MAX_LINE_def)
  finally have n: "length (tokens s) \<le> 40" .
  then have lt: "0 + length (tokens s) < length a"
    using assms(2) by (simp add: argSize_def MAX_LINE_def)
  from tokenize_ok [OF lt] n show ?thesis by simp
qed

lemma first_operator_None:
  assumes "first_operator toks = None" and "1 \<le> k" and "k < length toks"
  shows "\<not> is_operator (toks ! k)"
proof -
  from assms(2,3) have "k \<in> set [1..<length toks]" by simp
  with assms(1) show ?thesis
    unfolding first_operator_def find_None_iff by blast
qed

lemma first_operator_Some:
  assumes "first_operator toks = Some k"
  shows "1 \<le> k \<and> k < length toks \<and> is_operator (toks ! k) \<and>
         (\<forall>j. 1 \<le> j \<and> j < k \<longrightarrow> \<not> is_operator (toks ! j))"
proof -
  from assms obtain idx where idx: "idx < length [1..<length toks]"
      "is_operator (toks ! ([1..<length toks] ! idx))" "k = [1..<length toks] ! idx"
      "\<forall>j<idx. \<not> is_operator (toks ! ([1..<length toks] ! j))"
    unfolding first_operator_def find_Some_iff by blast
  from idx(1) have n: "idx + 1 < length toks" by simp
  from idx(3) n have k: "k = 1 + idx" by simp
  have "\<not> is_operator (toks ! j)" if "1 \<le> j" "j < k" for j
  proof -
    from that k have "j - 1 < idx" by simp
    with idx(4) have "\<not> is_operator (toks ! ([1..<length toks] ! (j - 1)))" by blast
    moreover from that k n have "[1..<length toks] ! (j - 1) = j" by simp
    ultimately show ?thesis by simp
  qed
  with idx(2) k n show ?thesis by simp
qed

lemma find_special_tokens:
  assumes "take (length toks) a = map Some toks" and "length toks \<le> length a"
  shows "find_special a (length toks) 1 =
     (case first_operator toks of
        None \<Rightarrow> Inr (0, 0, max 1 (length toks))
      | Some k \<Rightarrow>
          Inr (if toks ! k = ''<'' then 1 else if toks ! k = ''>'' then 2 else 0,
               if toks ! k = ''|'' then 1 else 0, k))"
proof -
  have nth: "a ! k = Some (toks ! k)" if "k < length toks" for k
  proof -
    from that have "a ! k = take (length toks) a ! k" by simp
    also have "\<dots> = Some (toks ! k)" using that by (simp only: assms(1) nth_map)
    finally show ?thesis .
  qed
  show ?thesis
  proof (cases "first_operator toks")
    case None
    have "\<forall>k. 1 \<le> k \<and> k < length toks \<longrightarrow> (\<exists>s. a ! k = Some s \<and> \<not> is_operator s)"
      using first_operator_None [OF None] nth by blast
    from find_special_none [OF assms(2) this] None show ?thesis by simp
  next
    case (Some k)
    from first_operator_Some [OF Some]
    have k: "1 \<le> k" "k < length toks" "is_operator (toks ! k)"
      and before: "\<forall>j. 1 \<le> j \<and> j < k \<longrightarrow> \<not> is_operator (toks ! j)" by simp_all
    have "\<forall>j. 1 \<le> j \<and> j < k \<longrightarrow> (\<exists>t. a ! j = Some t \<and> \<not> is_operator t)"
      using before nth k(2) by auto
    from find_special_first [OF k(1) k(2) assms(2) nth [OF k(2)] k(3) this] Some
    show ?thesis by simp
  qed
qed

lemma interpret_line_ok:
  assumes "theCommand \<noteq> []" and "length theCommand \<le> MAX_LINE - 1" and "length a = argSize"
  shows "interpret_line a theCommand =
     (let toks = tokens (strip_background theCommand);
          a' = map Some toks @ None # drop (length toks + 1) a
      in case first_operator toks of
           None \<Rightarrow>
             Inr \<lparr>p_bgProcess = background_flag theCommand, p_args = a',
                  p_numArgs = length toks, p_ioRedirect = 0, p_needPipe = 0,
                  p_i = max 1 (length toks)\<rparr>
         | Some k \<Rightarrow>
             Inr \<lparr>p_bgProcess = background_flag theCommand, p_args = a',
                  p_numArgs = length toks,
                  p_ioRedirect = (if toks ! k = ''<'' then 1 else if toks ! k = ''>'' then 2 else 0),
                  p_needPipe = (if toks ! k = ''|'' then 1 else 0), p_i = k\<rparr>)"
proof -
  define s where "s = strip_background theCommand"
  define toks where "toks = tokens s"
  define a' where "a' = map Some toks @ None # drop (length toks + 1) a"
  have "length s \<le> length theCommand"
    unfolding s_def strip_background_def by simp
  with assms(2) have len: "length s \<le> MAX_LINE - 1" by simp
  from tokenize_bounded [OF len assms(3)]
  have n: "length toks \<le> 40" and tk: "tokenize a 0 s = Inr (a', length toks)"
    unfolding toks_def a'_def by simp_all
  have tk': "take (length toks) a' = map Some toks" unfolding a'_def by simp
  have le: "length toks \<le> length a'" unfolding a'_def by simp
  note fs = find_special_tokens [OF tk' le]
  have s_alt: "(if last theCommand = CHR ''&'' then butlast theCommand else theCommand) = s"
    unfolding s_def strip_background_def background_flag_def by simp
  have il: "interpret_line a theCommand =
      (case find_special a' (length toks) 1 of
         Inl e \<Rightarrow> Inl e
       | Inr (ioRedirect, needPipe, i) \<Rightarrow>
           Inr \<lparr>p_bgProcess = background_flag theCommand, p_args = a',
                p_numArgs = length toks, p_ioRedirect = ioRedirect,
                p_needPipe = needPipe, p_i = i\<rparr>)"
    using assms(1) tk unfolding interpret_line_def Let_def s_alt background_flag_def by simp
  have "interpret_line a theCommand =
     (case first_operator toks of
           None \<Rightarrow>
             Inr \<lparr>p_bgProcess = background_flag theCommand, p_args = a',
                  p_numArgs = length toks, p_ioRedirect = 0, p_needPipe = 0,
                  p_i = max 1 (length toks)\<rparr>
         | Some k \<Rightarrow>
             Inr \<lparr>p_bgProcess = background_flag theCommand, p_args = a',
                  p_numArgs = length toks,
                  p_ioRedirect = (if toks ! k = ''<'' then 1 else if toks ! k = ''>'' then 2 else 0),
                  p_needPipe = (if toks ! k = ''|'' then 1 else 0), p_i = k\<rparr>)"
    unfolding il fs by (cases "first_operator toks") simp_all
  then show ?thesis
    unfolding Let_def a'_def toks_def s_def .
qed

lemma c_argv_tokens: "c_argv (map Some toks @ None # rest) = toks"
  by (induction toks) (simp_all add: c_argv_def)

lemma interpret_line_shape:
  assumes "theCommand \<noteq> []" and "length theCommand \<le> MAX_LINE - 1" and "length a = argSize"
  shows "\<exists>p. interpret_line a theCommand = Inr p \<and>
           p_bgProcess p = background_flag theCommand \<and>
           p_args p = map Some (tokens (strip_background theCommand)) @ None #
                        drop (length (tokens (strip_background theCommand)) + 1) a \<and>
           p_numArgs p = length (tokens (strip_background theCommand)) \<and>
           (case first_operator (tokens (strip_background theCommand)) of
              None \<Rightarrow> p_ioRedirect p = 0 \<and> p_needPipe p = 0 \<and>
                        p_i p = max 1 (length (tokens (strip_background theCommand)))
            | Some k \<Rightarrow>
                p_ioRedirect p =
                  (if tokens (strip_background theCommand) ! k = ''<'' then 1
                   else if tokens (strip_background theCommand) ! k = ''>'' then 2 else 0) \<and>
                p_needPipe p = (if tokens (strip_background theCommand) ! k = ''|'' then 1 else 0) \<and>
                p_i p = k)"
  unfolding interpret_line_ok [OF assms] Let_def
  by (cases "first_operator (tokens (strip_background theCommand))") simp_all

lemma copy_loop_ok:
  "j \<le> n \<Longrightarrow> n \<le> length dst \<Longrightarrow> n + off \<le> length src \<Longrightarrow>
   copy_loop dst src off j (int n) =
     Inr (take j dst @ take (n - j) (drop (j + off) src) @ drop n dst)"
proof (induction "n - j" arbitrary: dst j)
  case 0
  then have "j = n" by simp
  then show ?case by (subst copy_loop.simps) simp
next
  case (Suc k)
  then have jn: "j < n" by simp
  let ?v = "src ! (j + off)"
  have r: "rd src (j + off) = Inr ?v" using jn Suc.prems by (simp add: rd_def)
  have s: "store dst j ?v = Inr (dst[j := ?v])" using jn Suc.prems by (simp add: store_def)
  have k: "k = n - (j + 1)" using Suc.hyps(2) by simp
  have ih: "copy_loop (dst[j := ?v]) src off (j + 1) (int n) =
      Inr (take (j + 1) (dst[j := ?v]) @ take (n - (j + 1)) (drop (j + 1 + off) src) @
           drop n (dst[j := ?v]))"
    using Suc.hyps(1) [OF k] jn Suc.prems by simp
  have t1: "take (j + 1) (dst[j := ?v]) = take j dst @ [?v]"
    using jn Suc.prems by (simp add: take_Suc_conv_app_nth)
  have t2: "drop n (dst[j := ?v]) = drop n dst" using jn by simp
  have t3: "take (n - j) (drop (j + off) src) = ?v # take (n - (j + 1)) (drop (j + 1 + off) src)"
  proof -
    have "j + off < length src" using jn Suc.prems by simp
    then have "drop (j + off) src = ?v # drop (j + 1 + off) src"
      by (simp add: Cons_nth_drop_Suc)
    moreover have "n - j = Suc (n - (j + 1))" using jn by simp
    ultimately show ?thesis by simp
  qed
  have "copy_loop dst src off j (int n) = copy_loop (dst[j := ?v]) src off (j + 1) (int n)"
    using jn r s by (subst copy_loop.simps) simp
  then show ?case unfolding ih t1 t2 t3 by simp
qed

lemma split_pipe_ok:
  assumes "i < numArgs" and "numArgs \<le> length a"
  shows "split_pipe env a numArgs i =
           Inr (take i a @ [None], drop (i + 1) (take numArgs a) @ [None])"
proof -
  have c1: "copy_loop (vla env (i + 1)) a 0 0 (int i) = Inr (take i a @ [junk env i])"
    using copy_loop_ok [of 0 i "vla env (i + 1)" 0 a] assms
    by (simp add: vla_def)
  have len1: "length (take i a) = i" using assms by simp
  have s1: "store (take i a @ [junk env i]) i None = Inr (take i a @ [None])"
    using len1 by (simp add: store_def list_update_append)
  define m where "m = numArgs - i - 1"
  have m1: "int numArgs - int i - 1 = int m" and m2: "nat (int numArgs - int i) = m + 1"
    and m3: "nat (int numArgs - int i - 1) = m"
    using assms(1) unfolding m_def by simp_all
  have c2: "copy_loop (vla env (m + 1)) a (i + 1) 0 (int m) =
              Inr (take m (drop (i + 1) a) @ [junk env m])"
    using copy_loop_ok [of 0 m "vla env (m + 1)" "i + 1" a] assms
    by (simp add: vla_def m_def)
  have len: "length (take m (drop (i + 1) a)) = m"
    using assms by (simp add: m_def)
  have s2: "store (take m (drop (i + 1) a) @ [junk env m]) m None =
              Inr (take m (drop (i + 1) a) @ [None])"
    using len by (simp add: store_def list_update_append)
  have eq: "take m (drop (i + 1) a) = drop (i + 1) (take numArgs a)"
    unfolding m_def by (simp add: drop_take)
  show ?thesis
    using s1 s2 eq unfolding split_pipe_def m1 m2 m3 c1 c2 by simp
qed

lemma parse_ls_wc:
  "interpret_line (replicate argSize None) ''ls -l | wc -l'' =
     Inr \<lparr>p_bgProcess = False,
          p_args = [Some ''ls'', Some ''-l'', Some ''|'', Some ''wc'', Some ''-l''] @
                   replicate 36 None,
          p_numArgs = 5, p_ioRedirect = 0, p_needPipe = 1, p_i = 2\<rparr>"
  by code_simp

lemma exec_checked_exec_or_exit: "exec_checked env (exec_or_exit env f a)"
  unfolding exec_checked_def exec_or_exit_def by (auto split: option.splits)

lemma exec_checked_no_exec: "no_exec tr \<Longrightarrow> exec_checked env (tr, out)"
  unfolding exec_checked_def no_exec_def by simp

lemma exec_checked_prefix:
  assumes "exec_checked env r" and "no_exec pre"
  shows "exec_checked env (pre @ fst r, snd r)"
proof -
  have "snd r = Exited 1 \<and>
        (\<exists>q. pre @ fst r = q @ [Execvp (Some name) av, Perror ''Exec failed'', Exit 1])"
    if a: "Execvp (Some name) av \<in> set (pre @ fst r)" and b: "\<not> execvp_ok env (Some name) av" for name av
  proof -
    from a assms(2) have "Execvp (Some name) av \<in> set (fst r)" unfolding no_exec_def by auto
    with assms(1) b obtain q where "snd r = Exited 1"
        "fst r = q @ [Execvp (Some name) av, Perror ''Exec failed'', Exit 1]"
      unfolding exec_checked_def by blast
    then have "snd r = Exited 1 \<and>
        pre @ fst r = (pre @ q) @ [Execvp (Some name) av, Perror ''Exec failed'', Exit 1]" by simp
    then show ?thesis by blast
  qed
  then show ?thesis unfolding exec_checked_def fst_conv snd_conv by blast
qed

lemma exec_checked_cons:
  assumes "exec_checked env (case r of (tr, out) \<Rightarrow> (g tr, out))" and "\<forall>f av. x \<noteq> Execvp f av"
  shows "exec_checked env (case r of (tr, out) \<Rightarrow> (x # g tr, out))"
proof -
  have "no_exec [x]" using assms(2) by (auto simp: no_exec_def)
  from exec_checked_prefix [OF assms(1) this] show ?thesis
    by (simp add: case_prod_beta)
qed

lemma exec_checked_id:
  "exec_checked env r \<Longrightarrow> exec_checked env (case r of (tr, out) \<Rightarrow> (tr, out))"
  by (simp add: case_prod_beta)

lemma exec_checked_exec_args: "exec_checked env (exec_args env a)"
  unfolding exec_args_def
  by (auto split: sum.splits intro: exec_checked_exec_or_exit exec_checked_no_exec
        simp: no_exec_def)

lemma exec_checked_run_single: "exec_checked env (run_single env a i ioRedirect)"
  unfolding run_single_def Let_def
  by (auto split: sum.splits
        intro!: exec_checked_exec_args exec_checked_no_exec exec_checked_cons exec_checked_id
        simp: no_exec_def)

lemma exec_checked_run_pipe: "exec_checked env (run_pipe env a numArgs i)"
proof (cases "pipe_ret env = -1")
  case True
  then show ?thesis
    unfolding run_pipe_def by (auto intro!: exec_checked_no_exec simp: no_exec_def)
next
  case False
  show ?thesis
  proof (cases "split_pipe env a numArgs i")
    case (Inl e)
    with False show ?thesis
      unfolding run_pipe_def by (auto intro!: exec_checked_no_exec simp: no_exec_def)
  next
    case (Inr pr)
    obtain fc sc where pr: "pr = (fc, sc)" by (cases pr)
    show ?thesis
      using False Inr pr unfolding run_pipe_def Let_def
      by (auto split: sum.splits
            intro!: exec_checked_no_exec exec_checked_cons exec_checked_id
              exec_checked_exec_or_exit
            simp: no_exec_def)
  qed
qed

lemma exec_checked_orchestrate: "exec_checked env (orchestrate env p)"
  unfolding orchestrate_def Let_def
  by (auto intro!: exec_checked_no_exec exec_checked_run_single exec_checked_run_pipe
        exec_checked_cons exec_checked_id
        simp: no_exec_def)

lemma orchestrate_shell:
  "childPid env \<noteq> 0 \<Longrightarrow>
   snd (orchestrate env p) = Continues \<and> no_exec (fst (orchestrate env p)) \<and>
   Fork \<in> set (fst (orchestrate env p))"
  unfolding orchestrate_def no_exec_def by auto

lemma parse_nosuch:
  "interpret_line (replicate argSize None) ''nosuchprog -x'' =
     Inr \<lparr>p_bgProcess = False,
          p_args = [Some ''nosuchprog'', Some ''-x''] @ replicate 39 None,
          p_numArgs = 2, p_ioRedirect = 0, p_needPipe = 0, p_i = 2\<rparr>"
  by code_simp

lemma latest_command_Cons:
  "latest_command h (l # ls) = latest_command (if is_command l then l else h) ls"
  by (simp add: latest_command_def)

lemma tokenize_length: "tokenize a n s = Inr (a', n') \<Longrightarrow> length a' = length a"
proof (induction a n s rule: tokenize.induct)
  case (1 a numArgs saved)
  show ?case
  proof (cases "strtok saved")
    case None
    with "1.prems" show ?thesis
      by (subst (asm) tokenize.simps) (auto simp: store_def split: if_splits)
  next
    case (Some pr)
    obtain tok r where pr: "pr = (tok, r)" by (cases pr)
    with Some have st: "strtok saved = Some (tok, r)" by simp
    show ?thesis
    proof (cases "numArgs < length a")
      case True
      then have sto: "store a numArgs (Some tok) = Inr (a[numArgs := Some tok])"
        by (simp add: store_def)
      from "1.prems" st sto
      have "tokenize (a[numArgs := Some tok]) (numArgs + 1) r = Inr (a', n')"
        by (subst (asm) tokenize.simps) simp
      from "1.IH" [OF st refl sto this] show ?thesis by simp
    next
      case False
      then have "store a numArgs (Some tok) = Inl OutOfBounds" by (simp add: store_def)
      with "1.prems" st show ?thesis
        by (subst (asm) tokenize.simps) simp
    qed
  qed
qed

lemma interpret_line_length:
  "interpret_line a theCommand = Inr p \<Longrightarrow> length (p_args p) = length a"
  unfolding interpret_line_def Let_def
  by (auto split: if_splits sum.splits prod.splits dest: tokenize_length)

lemma dispatch_shell:
  assumes "theCommand \<noteq> []" and "length theCommand \<le> MAX_LINE - 1"
    and "length (args st) = argSize" and "childPid env \<noteq> 0"
  shows "\<exists>tr a'. dispatch env st theCommand = (tr, Continues, st\<lparr>args := a'\<rparr>) \<and>
           length a' = argSize \<and> Fork \<in> set tr"
proof -
  from interpret_line_shape [OF assms(1,2,3)] obtain p
    where p: "interpret_line (args st) theCommand = Inr p" by blast
  from interpret_line_length [OF p] assms(3) have len: "length (p_args p) = argSize" by simp
  from orchestrate_shell [OF assms(4), of p]
  have "snd (orchestrate env p) = Continues" "Fork \<in> set (fst (orchestrate env p))" by simp_all
  with p len show ?thesis
    unfolding dispatch_def by (simp add: case_prod_beta, blast)
qed

lemma loop_body_shell:
  assumes "buf \<noteq> []" and "length buf \<le> MAX_LINE - 1" and "childPid env \<noteq> 0"
    and "length (args st) = argSize" and "length (history st) \<le> MAX_LINE - 1"
  shows "\<exists>tr st'. loop_body env st buf = (tr, Continues, st') \<and>
           length (args st') = argSize \<and> length (history st') \<le> MAX_LINE - 1 \<and>
           history st' = (if is_command (butlast buf) then butlast buf else history st) \<and>
           should_run st' = (if butlast buf = ''exit'' then 0 else should_run st)"
proof -
  define l where "l = butlast buf"
  have ll: "length l \<le> MAX_LINE - 1" using assms(2) unfolding l_def by simp
  consider (empty) "l = []" | (exit) "l = ''exit''" | (recall0) "l = ''!!''" "history st = []"
    | (recall) "l = ''!!''" "history st \<noteq> []" | (cmd) "is_command l"
    unfolding is_command_def by blast
  then show ?thesis
  proof cases
    case empty
    with assms show ?thesis
      unfolding loop_body_def Let_def l_def [symmetric] by (simp add: is_command_def)
  next
    case exit
    with assms show ?thesis
      unfolding loop_body_def Let_def l_def [symmetric] by (simp add: is_command_def)
  next
    case recall0
    with assms show ?thesis
      unfolding loop_body_def Let_def l_def [symmetric] by (simp add: is_command_def)
  next
    case recall
    from dispatch_shell [OF recall(2) assms(5,4,3)] obtain tr a'
      where d: "dispatch env st (history st) = (tr, Continues, st\<lparr>args := a'\<rparr>)"
        "length a' = argSize" by blast
    with recall assms show ?thesis
      unfolding loop_body_def Let_def l_def [symmetric] by (simp add: is_command_def)
  next
    case cmd
    then have ne: "l \<noteq> []" by (simp add: is_command_def)
    have "length (args (st\<lparr>history := l\<rparr>)) = argSize" using assms(4) by simp
    from dispatch_shell [OF ne ll this assms(3)] obtain tr a'
      where d: "dispatch env (st\<lparr>history := l\<rparr>) l = (tr, Continues, st\<lparr>history := l, args := a'\<rparr>)"
        "length a' = argSize" by auto
    with cmd assms ll show ?thesis
      unfolding loop_body_def Let_def l_def [symmetric] by (simp add: is_command_def)
  qed
qed

lemma main_loop_history:
  assumes "\<forall>(env, buf) \<in> set ins. childPid env \<noteq> 0 \<and> buf \<noteq> [] \<and> length buf \<le> MAX_LINE - 1"
    and "length (args st) = argSize" and "length (history st) \<le> MAX_LINE - 1"
    and "should_run st \<noteq> 0"
  shows "history (snd (snd (main_loop st ins))) = latest_command (history st) (entered_lines ins)"
  using assms
proof (induction ins arbitrary: st)
  case Nil
  then show ?case by (simp add: latest_command_def entered_lines_def)
next
  case (Cons x ins)
  obtain env buf where x: "x = (env, buf)" by (cases x)
  from Cons.prems(1) x have b: "buf \<noteq> []" "length buf \<le> MAX_LINE - 1" "childPid env \<noteq> 0"
    and rest: "\<forall>(env, buf) \<in> set ins. childPid env \<noteq> 0 \<and> buf \<noteq> [] \<and> length buf \<le> MAX_LINE - 1"
    by simp_all
  from loop_body_shell [OF b Cons.prems(2,3)] obtain tr st'
    where lb: "loop_body env st buf = (tr, Continues, st')"
      and inv: "length (args st') = argSize" "length (history st') \<le> MAX_LINE - 1"
      and h: "history st' = (if is_command (butlast buf) then butlast buf else history st)"
      and r: "should_run st' = (if butlast buf = ''exit'' then 0 else should_run st)"
    by blast
  have ml: "main_loop st (x # ins) =
      (let (tr', out, st'') = main_loop st' ins in (tr @ tr', out, st''))"
    using Cons.prems(4) lb x by simp
  then have fin: "history (snd (snd (main_loop st (x # ins)))) =
      history (snd (snd (main_loop st' ins)))"
    by (simp add: case_prod_beta)
  show ?case
  proof (cases "butlast buf = ''exit''")
    case True
    with r have "should_run st' = 0" by simp
    then have "main_loop st' ins = ([], Exited 0, st')" by (cases ins) auto
    with fin h True show ?thesis
      by (simp add: x entered_lines_def latest_command_def is_command_def)
  next
    case False
    with r Cons.prems(4) have "should_run st' \<noteq> 0" by simp
    from Cons.IH [OF rest inv this]
    have "history (snd (snd (main_loop st' ins))) =
        latest_command (history st') (entered_lines ins)" .
    moreover have "entered_lines (x # ins) = butlast buf # entered_lines ins"
      using False by (simp add: entered_lines_def x)
    ultimately show ?thesis
      using fin h by (simp add: latest_command_Cons)
  qed
qed

lemma takeWhile_stop: "\<not> P x \<Longrightarrow> takeWhile P (ys @ x # zs) = takeWhile P ys"
  by (induction ys) simp_all

lemma c_argv_cut:
  assumes "i < length a"
  shows "c_argv (a[i := None]) = c_argv (take i a)"
proof -
  have "a[i := None] = take i a @ None # drop (Suc i) a"
    using assms by (rule upd_conv_take_nth_drop)
  then show ?thesis
    unfolding c_argv_def by (simp add: takeWhile_stop)
qed

lemma remove_redirect_ok:
  assumes "i + 1 < length a"
  shows "remove_redirect a i = Inr (a[i := None, i + 1 := None])"
  using assms unfolding remove_redirect_def store_def by simp

lemma c_argv_removed:
  assumes "i + 1 < length a"
  shows "c_argv (a[i := None, i + 1 := None]) = c_argv (take i a)"
proof -
  have "a[i := None, i + 1 := None] = (a[i + 1 := None])[i := None]"
    by (simp add: list_update_swap)
  moreover have "i < length (a[i + 1 := None])" using assms by simp
  ultimately have "c_argv (a[i := None, i + 1 := None]) = c_argv (take i (a[i + 1 := None]))"
    by (simp only: c_argv_cut)
  then show ?thesis by simp
qed

lemma posix_open_trunc:
  "posix_open fs name [O_WRONLY, O_CREAT, O_TRUNC] = fs(name \<mapsto> [])"
  unfolding posix_open_def by (simp split: option.splits)

subsection \<open>The two processes\<close>

lemma calls_append: "calls w (xs @ ys) = calls w xs @ calls w ys"
  by (induction w xs rule: calls.induct) simp_all

lemma Did_in_calls: "Did w c \<in> set es \<longleftrightarrow> c \<in> set (calls w es)"
  by (induction w es rule: calls.induct) auto

lemma snoc_decomp:
  assumes "es @ [ev] = pre @ y # post"
  shows "(post = [] \<and> pre = es \<and> y = ev) \<or> (\<exists>post'. post = post' @ [ev] \<and> es = pre @ y # post')"
proof (cases post rule: rev_cases)
  case Nil
  with assms show ?thesis by simp
next
  case (snoc post' z)
  with assms have "es @ [ev] = (pre @ y # post') @ [z]" by simp
  then have "es = pre @ y # post'" and "ev = z" by simp_all
  with snoc show ?thesis by simp
qed

lemma waits_in_order_snoc:
  assumes "waits_in_order C es"
    and "\<And>x. ev = Did Parent x \<Longrightarrow> Did Parent Wait \<in> set es \<Longrightarrow>
           ChildEnded \<in> set es \<and> calls Child es = C"
    and "ev = WaitReturned \<Longrightarrow> ChildEnded \<in> set es"
  shows "waits_in_order C (es @ [ev])"
proof -
  have one: "ChildEnded \<in> set pre \<and> calls Child pre = C"
    if a: "es @ [ev] = pre @ Did Parent x # post" "Did Parent Wait \<in> set pre" for pre x post
  proof -
    from snoc_decomp [of es ev pre "Did Parent x" post] a(1)
    consider (last) "post = []" "pre = es" "Did Parent x = ev"
      | (inner) post' where "post = post' @ [ev]" "es = pre @ Did Parent x # post'"
      by blast
    then show ?thesis
    proof cases
      case last
      with a assms(2) [of x] show ?thesis by simp
    next
      case inner
      with a assms(1) show ?thesis unfolding waits_in_order_def by blast
    qed
  qed
  have two: "ChildEnded \<in> set pre" if a: "es @ [ev] = pre @ WaitReturned # post" for pre post
  proof -
    from snoc_decomp [of es ev pre WaitReturned post] a
    consider (last) "post = []" "pre = es" "WaitReturned = ev"
      | (inner) post' where "post = post' @ [ev]" "es = pre @ WaitReturned # post'"
      by blast
    then show ?thesis
    proof cases
      case last
      with assms(3) show ?thesis by simp
    next
      case inner
      with assms(1) show ?thesis unfolding waits_in_order_def by blast
    qed
  qed
  from one two show ?thesis unfolding waits_in_order_def by blast
qed

lemma duo_inv_start:
  assumes "Fork \<notin> set A" "Wait \<notin> set A"
  shows "duo_inv A B C e (start (A @ Fork # Wait # B) C e)"
  unfolding duo_inv_def start_def phase_def waits_in_order_def by auto

lemma duo_inv_step:
  assumes sh: "Fork \<notin> set A" "Wait \<notin> set A" "Fork \<notin> set B" "Wait \<notin> set B"
    and inv: "duo_inv A B C e d" and st: "step d w = Some d'"
  shows "duo_inv A B C e d'"
proof (cases w)
  case Parent
  show ?thesis
  proof (cases "parent_waiting d")
    case True
    with st Parent have dead: "child_life d \<noteq> Alive"
      and d': "d' = d\<lparr>parent_waiting := False, timeline := timeline d @ [WaitReturned]\<rparr>"
      by (auto split: if_splits)
    from inv True have ph: "parent_todo d = B" "child_life d \<noteq> Unborn"
      unfolding duo_inv_def phase_def by auto
    with dead have dd: "child_life d = Dead" by (cases "child_life d") auto
    have w: "waits_in_order C (timeline d @ [WaitReturned])"
      using inv dd by (intro waits_in_order_snoc) (auto simp: duo_inv_def)
    have "phase A B d'" unfolding phase_def d' using ph dd by auto
    with inv dd w show ?thesis
      unfolding duo_inv_def d' by (auto simp: calls_append)
  next
    case False
    with st Parent obtain c cs where pt: "parent_todo d = c # cs"
      and d': "d' = d\<lparr>parent_todo := cs, parent_waiting := (c = Wait),
                     child_life := (if c = Fork \<and> child_life d = Unborn then Alive
                                    else child_life d),
                     timeline := timeline d @ [Did Parent c]\<rparr>"
      by (auto split: list.splits)
    from inv have ph: "phase A B d" unfolding duo_inv_def by simp
    from ph False pt consider
        (a) A' where "c # cs = A' @ Fork # Wait # B" "set A' \<subseteq> set A" "child_life d = Unborn"
            "Wait \<notin> set (calls Parent (timeline d))"
      | (b) "c = Wait" "cs = B" "child_life d \<noteq> Unborn" "Wait \<notin> set (calls Parent (timeline d))"
      | (c) "set (c # cs) \<subseteq> set B" "child_life d = Dead"
      unfolding phase_def by auto
    then show ?thesis
    proof cases
      case a
      show ?thesis
      proof (cases A')
        case Nil
        with a have c: "c = Fork" "cs = Wait # B" by simp_all
        have w: "waits_in_order C (timeline d @ [Did Parent c])"
          using inv a(4) by (intro waits_in_order_snoc) (auto simp: duo_inv_def Did_in_calls)
        have "phase A B d'" unfolding phase_def d' using c a by (auto simp: calls_append)
        with inv a c pt w show ?thesis
          unfolding duo_inv_def d' by (auto simp: calls_append)
      next
        case (Cons x xs)
        with a have c: "c = x" "cs = xs @ Fork # Wait # B" "x \<in> set A" "set xs \<subseteq> set A" by auto
        with sh have nx: "c \<noteq> Fork" "c \<noteq> Wait" by auto
        have w: "waits_in_order C (timeline d @ [Did Parent c])"
          using inv a(4) by (intro waits_in_order_snoc) (auto simp: duo_inv_def Did_in_calls)
        have "phase A B d'" unfolding phase_def d' using c nx a by (auto simp: calls_append)
        with inv a c nx pt w show ?thesis
          unfolding duo_inv_def d' by (auto simp: calls_append)
      qed
    next
      case b
      have w: "waits_in_order C (timeline d @ [Did Parent c])"
        using inv b(4) by (intro waits_in_order_snoc) (auto simp: duo_inv_def Did_in_calls)
      have "phase A B d'" unfolding phase_def d' using b by (auto simp: calls_append)
      with inv b pt w show ?thesis
        unfolding duo_inv_def d' by (auto simp: calls_append)
    next
      case c
      with sh have nx: "c \<noteq> Fork" "c \<noteq> Wait" by auto
      have w: "waits_in_order C (timeline d @ [Did Parent c])"
        using inv c(2) by (intro waits_in_order_snoc) (auto simp: duo_inv_def)
      have "phase A B d'" unfolding phase_def d' using c nx by auto
      with inv c nx pt w show ?thesis
        unfolding duo_inv_def d' by (auto simp: calls_append)
    qed
  qed
next
  case Child
  with st have al: "child_life d = Alive" by (auto split: if_splits)
  from inv al have ph: "phase A B d" unfolding duo_inv_def by simp
  show ?thesis
  proof (cases "child_todo d")
    case Nil
    with st Child al have e: "child_ends d"
      and d': "d' = d\<lparr>child_life := Dead, timeline := timeline d @ [ChildEnded]\<rparr>"
      by (auto split: if_splits)
    have w: "waits_in_order C (timeline d @ [ChildEnded])"
      using inv by (intro waits_in_order_snoc) (auto simp: duo_inv_def)
    have "phase A B d'" using ph al unfolding phase_def d' by (auto simp: calls_append)
    with inv e Nil w show ?thesis
      unfolding duo_inv_def d' by (auto simp: calls_append)
  next
    case (Cons c cs)
    with st Child al have d': "d' = d\<lparr>child_todo := cs, timeline := timeline d @ [Did Child c]\<rparr>"
      by auto
    have w: "waits_in_order C (timeline d @ [Did Child c])"
      using inv by (intro waits_in_order_snoc) (auto simp: duo_inv_def)
    have "phase A B d'" using ph al unfolding phase_def d' by (auto simp: calls_append)
    with inv al Cons w show ?thesis
      unfolding duo_inv_def d' by (auto simp: calls_append)
  qed
qed

lemma duo_inv_run:
  assumes sh: "Fork \<notin> set A" "Wait \<notin> set A" "Fork \<notin> set B" "Wait \<notin> set B"
  shows "duo_inv A B C e d \<Longrightarrow> run d ws = Some d' \<Longrightarrow> duo_inv A B C e d'"
proof (induction ws arbitrary: d)
  case Nil
  then show ?case by simp
next
  case (Cons w ws)
  from Cons.prems(2) obtain d1 where s: "step d w = Some d1" and r: "run d1 ws = Some d'"
    by (auto split: option.splits)
  from duo_inv_step [OF sh Cons.prems(1) s] have "duo_inv A B C e d1" .
  from Cons.IH [OF this r] show ?case .
qed

lemma step_child_ends: "step d w = Some d' \<Longrightarrow> child_ends d' = child_ends d"
  by (cases w) (auto split: if_splits list.splits)

lemma run_child_ends: "run d ws = Some d' \<Longrightarrow> child_ends d' = child_ends d"
proof (induction ws arbitrary: d)
  case Nil
  then show ?case by simp
next
  case (Cons w ws)
  from Cons.prems obtain d1 where s: "step d w = Some d1" and r: "run d1 ws = Some d'"
    by (auto split: option.splits)
  from Cons.IH [OF r] step_child_ends [OF s] show ?case by simp
qed

lemma step_progress:
  assumes "child_ends d" and "\<not> parent_done d"
  shows "step d Parent \<noteq> None \<or> step d Child \<noteq> None"
  using assms by (auto simp: parent_done_def split: list.splits)

lemma step_bound: "step d w = Some d' \<Longrightarrow> steps_left d' < steps_left d"
  by (cases w) (auto simp: steps_left_def split: if_splits list.splits)

lemma run_bound: "run d ws = Some d' \<Longrightarrow> length ws + steps_left d' \<le> steps_left d"
proof (induction ws arbitrary: d)
  case Nil
  then show ?case by simp
next
  case (Cons w ws)
  from Cons.prems obtain d1 where s: "step d w = Some d1" and r: "run d1 ws = Some d'"
    by (auto split: option.splits)
  from Cons.IH [OF r] step_bound [OF s] show ?case by simp
qed

lemma duo_safety:
  assumes sh: "Fork \<notin> set A" "Wait \<notin> set A" "Fork \<notin> set B" "Wait \<notin> set B"
    and r: "run (start (A @ Fork # Wait # B) C e) ws = Some d"
  shows "(\<exists>k. calls Parent (timeline d) = take k (A @ Fork # Wait # B)) \<and>
         (\<exists>j. calls Child (timeline d) = take j C) \<and>
         waits_in_order C (timeline d) \<and>
         (ChildEnded \<in> set (timeline d) \<longrightarrow> e) \<and>
         (\<not> e \<longrightarrow> WaitReturned \<notin> set (timeline d) \<and>
                  set (calls Parent (timeline d)) \<subseteq> set A \<union> {Fork, Wait})"
proof -
  from duo_inv_run [OF sh duo_inv_start [OF sh(1,2)] r]
  have inv: "duo_inv A B C e d" .
  have p: "calls Parent (timeline d) @ parent_todo d = A @ Fork # Wait # B"
    and c: "calls Child (timeline d) @ child_todo d = C"
    using inv by (simp_all add: duo_inv_def)
  have a: "calls Parent (timeline d) = take (length (calls Parent (timeline d))) (A @ Fork # Wait # B)"
    by (subst p [symmetric]) simp
  have b: "calls Child (timeline d) = take (length (calls Child (timeline d))) C"
    by (subst c [symmetric]) simp
  have w: "waits_in_order C (timeline d)" using inv by (simp add: duo_inv_def)
  have en: "ChildEnded \<in> set (timeline d) \<longrightarrow> e" using inv by (auto simp: duo_inv_def)
  have h: "WaitReturned \<notin> set (timeline d) \<and>
           set (calls Parent (timeline d)) \<subseteq> set A \<union> {Fork, Wait}" if ne: "\<not> e"
  proof -
    from inv ne have nd: "child_life d \<noteq> Dead" by (auto simp: duo_inv_def)
    with inv have nw: "WaitReturned \<notin> set (timeline d)" by (auto simp: duo_inv_def)
    from inv nd obtain X where x: "parent_todo d = X @ B"
      unfolding duo_inv_def phase_def by auto
    with p have "(calls Parent (timeline d) @ X) @ B = (A @ [Fork, Wait]) @ B" by simp
    then have "calls Parent (timeline d) @ X = A @ [Fork, Wait]" by (simp only: append_same_eq)
    then have "set (calls Parent (timeline d)) \<subseteq> set (A @ [Fork, Wait])"
      by (metis set_append Un_upper1)
    with nw show ?thesis by auto
  qed
  from a b w en h show ?thesis by blast
qed

lemma exec_or_exit_env:
  "execvp_ok env' = execvp_ok env \<Longrightarrow> exec_or_exit env' f a = exec_or_exit env f a"
  by (cases f) (simp_all add: exec_or_exit_def)

lemma exec_or_exit_calls:
  "Fork \<notin> set (fst (exec_or_exit env f a)) \<and> Wait \<notin> set (fst (exec_or_exit env f a))"
  by (auto simp: exec_or_exit_def split: option.splits)

lemma ends_after_exec:
  "ends_after m True (snd (exec_or_exit env (cmd ! 0) cmd)) = stage_over m env cmd"
  by (auto simp: ends_after_def exec_or_exit_def stage_over_def
        split: option.splits behaviour.splits)

lemma run_pipe_owner:
  assumes "pipe_ret env \<noteq> -1" and "i < numArgs" and "numArgs \<le> length a"
  shows "run_pipe (env\<lparr>gChildPid := 1, wait2_returns := True\<rparr>) a numArgs i =
           ([MkPipe, Fork, Wait, Dup2 (fd1_READ env) STDIN_FILENO, Close (fd1_READ env),
             Close (fd1_WRITE env)] @
            fst (exec_or_exit env (second_command a numArgs i ! 0) (second_command a numArgs i)),
            snd (exec_or_exit env (second_command a numArgs i ! 0) (second_command a numArgs i)))"
proof -
  have e: "exec_or_exit (env\<lparr>gChildPid := 1, wait2_returns := True\<rparr>) f c = exec_or_exit env f c"
    for f c by (rule exec_or_exit_env) simp
  show ?thesis
    using assms(1)
    unfolding run_pipe_def split_pipe_ok [OF assms(2,3)] second_command_def
    by (simp add: rd_def e case_prod_beta)
qed

lemma run_pipe_owner_blocked:
  assumes "pipe_ret env \<noteq> -1" and "i < numArgs" and "numArgs \<le> length a"
  shows "run_pipe (env\<lparr>gChildPid := 1, wait2_returns := False\<rparr>) a numArgs i =
           ([MkPipe, Fork, Wait], Blocked)"
  using assms(1) unfolding run_pipe_def split_pipe_ok [OF assms(2,3)] by simp

lemma run_pipe_grandchild:
  assumes "pipe_ret env \<noteq> -1" and "i < numArgs" and "numArgs \<le> length a"
  shows "run_pipe (env\<lparr>gChildPid := 0\<rparr>) a numArgs i =
           ([MkPipe, Fork, Dup2 (fd1_WRITE env) STDOUT_FILENO, Close (fd1_WRITE env),
             Close (fd1_READ env)] @
            fst (exec_or_exit env (first_command a i ! 0) (first_command a i)),
            snd (exec_or_exit env (first_command a i ! 0) (first_command a i)))"
proof -
  have e: "exec_or_exit (env\<lparr>gChildPid := 0\<rparr>) f c = exec_or_exit env f c"
    for f c by (rule exec_or_exit_env) simp
  show ?thesis
    using assms(1)
    unfolding run_pipe_def split_pipe_ok [OF assms(2,3)] first_command_def
    by (simp add: rd_def e case_prod_beta)
qed

lemma pipe_system_shape:
  assumes "pipe_ret env \<noteq> -1" and "i < numArgs" and "numArgs \<le> length a"
  shows "pipe_system m env a numArgs i =
           start ([MkPipe] @ Fork # Wait #
                    ([Dup2 (fd1_READ env) STDIN_FILENO, Close (fd1_READ env),
                      Close (fd1_WRITE env)] @
                     fst (exec_or_exit env (second_command a numArgs i ! 0)
                            (second_command a numArgs i))))
                 ([Dup2 (fd1_WRITE env) STDOUT_FILENO, Close (fd1_WRITE env),
                   Close (fd1_READ env)] @
                  fst (exec_or_exit env (first_command a i ! 0) (first_command a i)))
                 (stage_over m env (first_command a i))"
  unfolding pipe_system_def run_pipe_owner [OF assms] run_pipe_grandchild [OF assms]
  by (simp add: own_calls_def ends_after_exec)

lemma stage_over_failed:
  "cmd ! 0 = Some name \<Longrightarrow> \<not> execvp_ok env (Some name) (c_argv cmd) \<Longrightarrow> stage_over m env cmd"
  by (simp add: stage_over_def)

lemma shell_system_foreground:
  "\<not> p_bgProcess p \<Longrightarrow>
     shell_system m env p =
       start ([] @ Fork # Wait # [])
         (own_calls (fst (orchestrate (owner_view m env p) p)))
         (ends_after m False (snd (orchestrate (owner_view m env p) p)))"
  unfolding shell_system_def by (simp add: orchestrate_def)

lemma shell_child_ends:
  assumes "Execvp (Some name) av \<in> set (fst (orchestrate (owner_view m env p) p))"
    and "\<not> execvp_ok env (Some name) av"
  shows "child_ends (shell_system m env p)"
proof -
  from assms(2) have "\<not> execvp_ok (owner_view m env p) (Some name) av"
    by (simp add: owner_view_def)
  with exec_checked_orchestrate [of "owner_view m env p" p] assms(1)
  have "snd (orchestrate (owner_view m env p) p) = Exited 1"
    unfolding exec_checked_def by blast
  then show ?thesis
    unfolding shell_system_def start_def by (simp add: ends_after_def)
qed

lemma run_live:
  assumes "child_ends s" and "run s ws = Some d"
  shows "length ws \<le> steps_left s \<and>
         (parent_done d \<or> step d Parent \<noteq> None \<or> step d Child \<noteq> None)"
proof -
  from run_child_ends [OF assms(2)] assms(1) have "child_ends d" by simp
  then have p: "parent_done d \<or> step d Parent \<noteq> None \<or> step d Child \<noteq> None"
    using step_progress [of d] by blast
  from run_bound [OF assms(2)] have "length ws \<le> steps_left s" by simp
  with p show ?thesis by blast
qed

lemma wait_returned_after_end:
  assumes "run (start ([] @ Fork # Wait # []) C e) ws = Some d"
    and "timeline d = pre @ WaitReturned # post"
  shows "ChildEnded \<in> set pre"
proof -
  have sh: "Fork \<notin> set []" "Wait \<notin> set []" "Fork \<notin> set []" "Wait \<notin> set []"
    by simp_all
  from duo_safety [OF sh assms(1)] assms(2) show ?thesis
    unfolding waits_in_order_def by blast
qed

lemma run_nosuchprog:
  "run (shell_system (demo_machine [] 0) (demo_env 7 0 False)
          \<lparr>p_bgProcess = False,
           p_args = [Some ''nosuchprog'', Some ''-x''] @ replicate 39 None,
           p_numArgs = 2, p_ioRedirect = 0, p_needPipe = 0, p_i = 2\<rparr>)
       [Parent, Child, Child, Child, Parent, Child, Parent] =
     Some \<lparr>parent_todo = [], parent_waiting = False, child_todo = [], child_life = Dead,
            child_ends = True,
            timeline =
              [Did Parent Fork, Did Child (Execvp (Some ''nosuchprog'') [''nosuchprog'', ''-x'']),
               Did Child (Perror ''Exec failed''), Did Child (Exit 1), Did Parent Wait,
               ChildEnded, WaitReturned]\<rparr>"
  by code_simp

lemma run_nosuchprog_wc:
  "run (pipe_system (demo_machine [] 0) (demo_env 0 0 False)
          ([Some ''nosuchprog'', Some ''|'', Some ''wc''] @ replicate 38 None) 3 1)
       [Parent, Parent, Parent, Child, Child, Child, Child, Child, Child, Child] =
     Some \<lparr>parent_todo = [Dup2 3 0, Close 3, Close 4, Execvp (Some ''wc'') [''wc''],
                           Perror ''Exec failed'', Exit 1],
            parent_waiting = True, child_todo = [], child_life = Dead, child_ends = True,
            timeline =
              [Did Parent MkPipe, Did Parent Fork, Did Parent Wait, Did Child (Dup2 4 1),
               Did Child (Close 4), Did Child (Close 3),
               Did Child (Execvp (Some ''nosuchprog'') [''nosuchprog'']),
               Did Child (Perror ''Exec failed''), Did Child (Exit 1), ChildEnded]\<rparr>"
  by code_simp

lemma run_ls_wc:
  "run (pipe_system (demo_machine ''total 0\<newline>'' 65536) (demo_env 0 0 True)
          ([Some ''ls'', Some ''-l'', Some ''|'', Some ''wc'', Some ''-l''] @ replicate 36 None)
          5 2)
       [Parent, Parent, Child, Parent, Child, Child, Child, Child, Parent, Parent, Parent,
        Parent, Parent] =
     Some \<lparr>parent_todo = [], parent_waiting = False, child_todo = [], child_life = Dead,
            child_ends = True,
            timeline =
              [Did Parent MkPipe, Did Parent Fork, Did Child (Dup2 4 1), Did Parent Wait,
               Did Child (Close 4), Did Child (Close 3),
               Did Child (Execvp (Some ''ls'') [''ls'', ''-l'']), ChildEnded, WaitReturned,
               Did Parent (Dup2 3 0), Did Parent (Close 3), Did Parent (Close 4),
               Did Parent (Execvp (Some ''wc'') [''wc'', ''-l''])]\<rparr>"
  by code_simp

lemma run_ls_wc_full_pipe:
  "run (pipe_system (demo_machine ''0123456789'' 4) (demo_env 0 0 True)
          ([Some ''ls'', Some ''-l'', Some ''|'', Some ''wc'', Some ''-l''] @ replicate 36 None)
          5 2)
       [Parent, Parent, Child, Parent, Child, Child, Child] =
     Some \<lparr>parent_todo = [Dup2 3 0, Close 3, Close 4, Execvp (Some ''wc'') [''wc'', ''-l'']],
            parent_waiting = True, child_todo = [], child_life = Alive, child_ends = False,
            timeline =
              [Did Parent MkPipe, Did Parent Fork, Did Child (Dup2 4 1), Did Parent Wait,
               Did Child (Close 4), Did Child (Close 3),
               Did Child (Execvp (Some ''ls'') [''ls'', ''-l''])]\<rparr>"
  by code_simp

section \<open>The claims\<close>

subsection \<open>Capacity of the argument array\<close>

text \<open>
  Claim C10. A command text of at most \<open>MAX_LINE - 1 = 79\<close> characters has at most 40
  tokens, so the tokens and the terminating \<^verbatim>\<open>NULL\<close> fit the \<open>argSize = 41\<close> entries of
  \<^verbatim>\<open>args\<close>: the tokenizing loop of lines 120--125 performs no store outside the array. It
  leaves the tokens at indices \<open>0..<numArgs\<close>, \<^verbatim>\<open>NULL\<close> at index \<open>numArgs\<close>, and the
  entries after it as they were.
\<close>

theorem tokenize_within_capacity:
  assumes "length s \<le> MAX_LINE - 1" and "length a = argSize"
  shows "length (tokens s) \<le> 40 \<and> length (tokens s) + 1 \<le> argSize \<and>
         tokenize a 0 s =
           Inr (map Some (tokens s) @ None # drop (length (tokens s) + 1) a,
                length (tokens s))"
  using tokenize_bounded [OF assms] by (simp add: argSize_def MAX_LINE_def)

theorem tokenize_within_capacity_witness:
  "length ''a b c d e f g h i j k l m n o p q r s t u v w x y z A B C D E F G H I J K L M N'' = 79 \<and>
   length (tokens ''a b c d e f g h i j k l m n o p q r s t u v w x y z A B C D E F G H I J K L M N'') \<le> 40 \<and>
   (\<exists>a'. tokenize (replicate argSize None) 0
      ''a b c d e f g h i j k l m n o p q r s t u v w x y z A B C D E F G H I J K L M N'' =
        Inr (a', length (tokens ''a b c d e f g h i j k l m n o p q r s t u v w x y z A B C D E F G H I J K L M N'')))"
  using tokenize_within_capacity
    [of "''a b c d e f g h i j k l m n o p q r s t u v w x y z A B C D E F G H I J K L M N''"
        "replicate argSize None"]
  by (simp add: MAX_LINE_def)

subsection \<open>Classification by the first operator token\<close>

text \<open>
  Claim C1. For every non-empty command text that fits the buffer, lines 112--151 end
  with exactly one of the four combinations of \<^verbatim>\<open>ioRedirect\<close> and \<^verbatim>\<open>needPipe\<close> that
  stand for Plain, InputRedirect, OutputRedirect and Pipe. The classification is the one
  of the first token equal to \<^verbatim>\<open><\<close>, \<^verbatim>\<open>>\<close> or \<^verbatim>\<open>|\<close> found from index 1 on, and \<^verbatim>\<open>i\<close> is its
  index; a token at index 0 is never taken for an operator; with no such token the
  classification is Plain.
\<close>

theorem first_operator_decides_classification:
  assumes "theCommand \<noteq> []" and "length theCommand \<le> MAX_LINE - 1" and "length a = argSize"
  shows "\<exists>p. interpret_line a theCommand = Inr p \<and>
           c_argv (p_args p) = tokens (strip_background theCommand) \<and>
           (p_ioRedirect p, p_needPipe p) \<in> {(0, 0), (1, 0), (2, 0), (0, 1)} \<and>
           (case first_operator (tokens (strip_background theCommand)) of
              None \<Rightarrow> classification_of p = Plain
            | Some k \<Rightarrow>
                classification_of p = op_class (tokens (strip_background theCommand) ! k) \<and>
                p_i p = k)"
proof -
  define toks where "toks = tokens (strip_background theCommand)"
  from interpret_line_shape [OF assms] obtain p where
    p: "interpret_line a theCommand = Inr p"
       "p_args p = map Some toks @ None # drop (length toks + 1) a"
       "case first_operator toks of
              None \<Rightarrow> p_ioRedirect p = 0 \<and> p_needPipe p = 0 \<and> p_i p = max 1 (length toks)
            | Some k \<Rightarrow>
                p_ioRedirect p = (if toks ! k = ''<'' then 1 else if toks ! k = ''>'' then 2 else 0) \<and>
                p_needPipe p = (if toks ! k = ''|'' then 1 else 0) \<and> p_i p = k"
    unfolding toks_def by blast
  have av: "c_argv (p_args p) = toks" unfolding p(2) by (rule c_argv_tokens)
  have "(p_ioRedirect p, p_needPipe p) \<in> {(0, 0), (1, 0), (2, 0), (0, 1)} \<and>
        (case first_operator toks of
              None \<Rightarrow> classification_of p = Plain
            | Some k \<Rightarrow> classification_of p = op_class (toks ! k) \<and> p_i p = k)"
  proof (cases "first_operator toks")
    case None
    with p(3) show ?thesis by (simp add: classification_of_def)
  next
    case (Some k)
    from first_operator_Some [OF Some] have "is_operator (toks ! k)" by simp
    with p(3) Some show ?thesis
      by (auto simp: classification_of_def op_class_def is_operator_def)
  qed
  with p(1) av show ?thesis unfolding toks_def by blast
qed

theorem first_operator_decides_classification_witness:
  "\<exists>p. interpret_line (replicate argSize None) ''| sort < in > out | wc &'' = Inr p \<and>
       c_argv (p_args p) = [''|'', ''sort'', ''<'', ''in'', ''>'', ''out'', ''|'', ''wc''] \<and>
       classification_of p = InputRedirect \<and> p_i p = 2"
proof -
  have t: "tokens (strip_background ''| sort < in > out | wc &'') =
           [''|'', ''sort'', ''<'', ''in'', ''>'', ''out'', ''|'', ''wc'']"
    by code_simp
  have f: "first_operator [''|'', ''sort'', ''<'', ''in'', ''>'', ''out'', ''|'', ''wc''] = Some 2"
    by code_simp
  have o: "op_class ''<'' = InputRedirect" by (simp add: op_class_def)
  show ?thesis
    using first_operator_decides_classification
      [of "''| sort < in > out | wc &''" "replicate argSize None"]
    unfolding t f by (simp add: MAX_LINE_def o, blast)
qed

subsection \<open>The background marker\<close>

text \<open>
  Claim C8. For every non-empty command text that fits the buffer, \<^verbatim>\<open>bgProcess\<close> is set
  exactly when the last character is \<^verbatim>\<open>&\<close>; the text is then tokenized without that
  character, and unchanged otherwise. The witness is the pair of lines of the claim:
  \<^verbatim>\<open>sleep 1 &\<close> and \<^verbatim>\<open>sleep 1\<close> both give the arguments \<^verbatim>\<open>sleep\<close>, \<^verbatim>\<open>1\<close>, the first with
  the flag set and the second without.
\<close>

theorem background_marker_stripped:
  assumes "theCommand \<noteq> []" and "length theCommand \<le> MAX_LINE - 1" and "length a = argSize"
  shows "\<exists>p. interpret_line a theCommand = Inr p \<and>
           p_bgProcess p = (last theCommand = CHR ''&'') \<and>
           c_argv (p_args p) =
             tokens (if last theCommand = CHR ''&'' then butlast theCommand else theCommand) \<and>
           p_numArgs p = length (c_argv (p_args p)) \<and>
           p_args p ! p_numArgs p = None"
proof -
  from interpret_line_shape [OF assms] obtain p where
    p: "interpret_line a theCommand = Inr p"
       "p_bgProcess p = background_flag theCommand"
       "p_args p = map Some (tokens (strip_background theCommand)) @ None #
                        drop (length (tokens (strip_background theCommand)) + 1) a"
       "p_numArgs p = length (tokens (strip_background theCommand))"
    by blast
  have av: "c_argv (p_args p) = tokens (strip_background theCommand)"
    unfolding p(3) by (rule c_argv_tokens)
  have nul: "p_args p ! p_numArgs p = None"
    unfolding p(3) p(4) by (simp add: nth_append)
  from p(1) p(2) p(4) av nul show ?thesis
    by (auto simp: background_flag_def strip_background_def)
qed

theorem background_marker_stripped_witness:
  "(\<exists>p. interpret_line (replicate argSize None) ''sleep 1 &'' = Inr p \<and>
        p_bgProcess p \<and> c_argv (p_args p) = [''sleep'', ''1'']) \<and>
   (\<exists>p. interpret_line (replicate argSize None) ''sleep 1'' = Inr p \<and>
        \<not> p_bgProcess p \<and> c_argv (p_args p) = [''sleep'', ''1''])"
proof -
  have t1: "tokens ''sleep 1 '' = [''sleep'', ''1'']" by code_simp
  have t2: "tokens ''sleep 1'' = [''sleep'', ''1'']" by code_simp
  have "\<exists>p. interpret_line (replicate argSize None) ''sleep 1 &'' = Inr p \<and>
        p_bgProcess p \<and> c_argv (p_args p) = [''sleep'', ''1'']"
    using background_marker_stripped [of "''sleep 1 &''" "replicate argSize None"] t1
    by (simp add: MAX_LINE_def, blast)
  moreover
  have "\<exists>p. interpret_line (replicate argSize None) ''sleep 1'' = Inr p \<and>
        \<not> p_bgProcess p \<and> c_argv (p_args p) = [''sleep'', ''1'']"
    using background_marker_stripped [of "''sleep 1''" "replicate argSize None"] t2
    by (simp add: MAX_LINE_def, blast)
  ultimately show ?thesis by blast
qed

subsection \<open>Splitting a piped command\<close>

text \<open>
  Claim C2. When the pipe token is at index \<open>i\<close> of \<open>numArgs\<close> tokens, lines 179--193
  build \<^verbatim>\<open>firstCommand\<close> as the tokens before index \<open>i\<close> followed by \<^verbatim>\<open>NULL\<close>, and
  \<^verbatim>\<open>secondCommand\<close> as the tokens from index \<open>i + 1\<close> to \<open>numArgs\<close> followed by \<^verbatim>\<open>NULL\<close>,
  whatever the arrays held before. The witness is the line \<^verbatim>\<open>ls -l | wc -l\<close>: the pipe is
  found at index 2 and the two vectors are \<^verbatim>\<open>ls -l\<close> and \<^verbatim>\<open>wc -l\<close>.
\<close>

theorem pipe_split:
  assumes "i < numArgs" and "numArgs \<le> length a"
  shows "split_pipe env a numArgs i =
           Inr (take i a @ [None], drop (i + 1) (take numArgs a) @ [None])"
  using assms by (rule split_pipe_ok)

theorem pipe_split_witness:
  "\<forall>env. \<exists>p. interpret_line (replicate argSize None) ''ls -l | wc -l'' = Inr p \<and>
      p_needPipe p = 1 \<and> p_i p = 2 \<and> p_numArgs p = 5 \<and>
      split_pipe env (p_args p) (p_numArgs p) (p_i p) =
        Inr ([Some ''ls'', Some ''-l'', None], [Some ''wc'', Some ''-l'', None])"
proof
  fix env
  have "split_pipe env ([Some ''ls'', Some ''-l'', Some ''|'', Some ''wc'', Some ''-l''] @
                   replicate 36 None) 5 2 =
        Inr ([Some ''ls'', Some ''-l'', None], [Some ''wc'', Some ''-l'', None])"
    using pipe_split [of 2 5 "[Some ''ls'', Some ''-l'', Some ''|'', Some ''wc'', Some ''-l''] @
                   replicate 36 None" env]
    by simp
  then show "\<exists>p. interpret_line (replicate argSize None) ''ls -l | wc -l'' = Inr p \<and>
      p_needPipe p = 1 \<and> p_i p = 2 \<and> p_numArgs p = 5 \<and>
      split_pipe env (p_args p) (p_numArgs p) (p_i p) =
        Inr ([Some ''ls'', Some ''-l'', None], [Some ''wc'', Some ''-l'', None])"
    unfolding parse_ls_wc by simp
qed

subsection \<open>The history slot\<close>

text \<open>
  Claim C3. Following the shell through any sequence of iterations whose input fits the
  buffer, \<^verbatim>\<open>history\<close> ends as the latest line entered before the first \<^verbatim>\<open>exit\<close> that was
  not empty and not \<^verbatim>\<open>!!\<close>, and as the empty initial content when there was none. An
  iteration that reads \<^verbatim>\<open>!!\<close> leaves \<^verbatim>\<open>history\<close> as it was in every process; when
  \<^verbatim>\<open>history\<close> is empty it prints the prompt and \<^verbatim>\<open>No command in history.\<close>, calls
  nothing else (no \<^verbatim>\<open>fork\<close>) and changes no state.
\<close>

theorem history_slot:
  assumes "\<forall>(env, buf) \<in> set ins. childPid env \<noteq> 0 \<and> buf \<noteq> [] \<and> length buf \<le> MAX_LINE - 1"
    and "length args0 = argSize"
  shows "history (snd (snd (main args0 ins))) = latest_command [] (entered_lines ins) \<and>
         (\<forall>env st. history (snd (snd (loop_body env st ''!!\<newline>''))) = history st) \<and>
         (\<forall>env st. history st = [] \<longrightarrow>
            loop_body env st ''!!\<newline>'' =
              ([Printf ''osh> '', Fflush, Printf ''No command in history.\<newline>''],
               Continues, st) \<and>
            Fork \<notin> set (fst (loop_body env st ''!!\<newline>'')))"
proof -
  have a: "history (snd (snd (main args0 ins))) = latest_command [] (entered_lines ins)"
    using main_loop_history [OF assms(1), of "init_state args0"] assms(2)
    unfolding main_def by (simp add: init_state_def case_prod_beta)
  have b: "history (snd (snd (loop_body env st ''!!\<newline>''))) = history st" for env st
    unfolding loop_body_def dispatch_def Let_def
    by (simp add: case_prod_beta split: sum.splits)
  have c: "loop_body env st ''!!\<newline>'' =
              ([Printf ''osh> '', Fflush, Printf ''No command in history.\<newline>''],
               Continues, st)" if "history st = []" for env st
    using that unfolding loop_body_def by simp
  from a b c show ?thesis by simp
qed

theorem history_slot_witness:
  "history (snd (snd (main (replicate argSize None)
      [(demo_env 7 0 True, ''ls -l\<newline>''), (demo_env 7 0 True, ''!!\<newline>''),
       (demo_env 7 0 True, ''\<newline>''), (demo_env 7 0 True, ''pwd &\<newline>''),
       (demo_env 7 0 True, ''!!\<newline>''), (demo_env 7 0 True, ''exit\<newline>''),
       (demo_env 7 0 True, ''date\<newline>'')]))) = ''pwd &'' \<and>
   loop_body (demo_env 7 0 True) (init_state (replicate argSize None)) ''!!\<newline>'' =
     ([Printf ''osh> '', Fflush, Printf ''No command in history.\<newline>''], Continues,
      init_state (replicate argSize None))"
proof -
  have e: "childPid (demo_env 7 0 True) \<noteq> 0" by (simp add: demo_env_def)
  have h: "history (init_state (replicate argSize None)) = []" by (simp add: init_state_def)
  from history_slot
      [of "[(demo_env 7 0 True, ''ls -l\<newline>''), (demo_env 7 0 True, ''!!\<newline>''),
       (demo_env 7 0 True, ''\<newline>''), (demo_env 7 0 True, ''pwd &\<newline>''),
       (demo_env 7 0 True, ''!!\<newline>''), (demo_env 7 0 True, ''exit\<newline>''),
       (demo_env 7 0 True, ''date\<newline>'')]" "replicate argSize None"] e h
  show ?thesis
    by (simp add: MAX_LINE_def entered_lines_def latest_command_def is_command_def)
qed

subsection \<open>Output redirection truncates\<close>

text \<open>
  Claim C7. For an output redirection whose file can be opened and whose program can be
  executed, the child calls \<^verbatim>\<open>open\<close> on the name after \<^verbatim>\<open>>\<close> with
  \<^verbatim>\<open>O_WRONLY | O_CREAT | O_TRUNC\<close>, makes the file its standard output and executes the
  tokens before \<^verbatim>\<open>>\<close>. In the model of these calls the file then holds exactly the
  output of the program, whatever it held before and whether it existed; so after a
  second run of the same command it holds the output of that run only. The witness is
  \<^verbatim>\<open>echo hi > out.txt\<close> run twice on a file with other contents, with a program that
  prints \<^verbatim>\<open>hi\<close> and a newline.
\<close>

theorem output_redirect_truncates:
  assumes "childPid env = 0" and "p_needPipe p = 0" and "p_ioRedirect p = 2"
    and "0 < p_i p" and "p_i p + 1 < length (p_args p)"
    and "p_args p ! (p_i p + 1) = Some name"
    and "open_ret env (Some name) [O_WRONLY, O_CREAT, O_TRUNC] \<noteq> -1"
    and "execvp_ok env (p_args p ! 0) (c_argv (take (p_i p) (p_args p)))"
  shows "fst (orchestrate env p) =
           [Fork, Open (Some name) [O_WRONLY, O_CREAT, O_TRUNC] 438,
            Dup2 (open_ret env (Some name) [O_WRONLY, O_CREAT, O_TRUNC]) STDOUT_FILENO,
            Execvp (p_args p ! 0) (c_argv (take (p_i p) (p_args p)))] \<and>
         run_child env prog fs (fst (orchestrate env p)) name =
           Some (prog (c_argv (take (p_i p) (p_args p)))) \<and>
         run_child env prog (run_child env prog fs (fst (orchestrate env p)))
             (fst (orchestrate env p)) name =
           Some (prog (c_argv (take (p_i p) (p_args p))))"
proof -
  let ?a = "p_args p" and ?i = "p_i p"
  let ?fd = "open_ret env (Some name) [O_WRONLY, O_CREAT, O_TRUNC]"
  let ?tr = "[Fork, Open (Some name) [O_WRONLY, O_CREAT, O_TRUNC] 438,
            Dup2 ?fd STDOUT_FILENO, Execvp (?a ! 0) (c_argv (take ?i ?a))]"
  have r1: "rd ?a (?i + 1) = Inr (Some name)" using assms(5,6) by (simp add: rd_def)
  have a0: "(?a[?i := None, ?i + 1 := None]) ! 0 = ?a ! 0" using assms(4) by simp
  have pos: "0 < length ?a" using assms(5) by (cases "p_args p") simp_all
  have r0: "rd (?a[?i := None, ?i + 1 := None]) 0 = Inr (?a ! 0)"
    using pos a0 by (simp add: rd_def)
  have ex: "fst (exec_args env (?a[?i := None, ?i + 1 := None])) =
      [Execvp (?a ! 0) (c_argv (take ?i ?a))]"
    unfolding exec_args_def r0 exec_or_exit_def c_argv_removed [OF assms(5)]
    using assms(8) by (auto split: option.splits)
  have tr: "fst (orchestrate env p) = ?tr"
    unfolding orchestrate_def run_single_def Let_def
    using assms(1,2,3,7) r1 remove_redirect_ok [OF assms(5)] ex
    by (simp add: case_prod_beta)
  have once: "run_child env prog fs' ?tr name = Some (prog (c_argv (take ?i ?a)))" for fs'
    unfolding run_child_def using assms(7,8)
    by (simp add: posix_open_trunc write_from_start_def)
  from tr once show ?thesis by simp
qed

theorem output_redirect_truncates_witness:
  "\<exists>p. interpret_line (replicate argSize None) ''echo hi > out.txt'' = Inr p \<and>
       run_child (demo_env 0 0 True) (\<lambda>av. if av = [''echo'', ''hi''] then ''hi\<newline>'' else [])
         (run_child (demo_env 0 0 True) (\<lambda>av. if av = [''echo'', ''hi''] then ''hi\<newline>'' else [])
            [''out.txt'' \<mapsto> ''previous contents'']
            (fst (orchestrate (demo_env 0 0 True) p)))
         (fst (orchestrate (demo_env 0 0 True) p)) ''out.txt'' = Some ''hi\<newline>''"
proof -
  define p where "p = \<lparr>p_bgProcess = False,
          p_args = [Some ''echo'', Some ''hi'', Some ''>'', Some ''out.txt''] @ replicate 37 None,
          p_numArgs = 4, p_ioRedirect = 2, p_needPipe = 0, p_i = 2\<rparr>"
  have ip: "interpret_line (replicate argSize None) ''echo hi > out.txt'' = Inr p"
    unfolding p_def by code_simp
  have h: "childPid (demo_env 0 0 True) = 0" "p_needPipe p = 0" "p_ioRedirect p = 2"
    "0 < p_i p" "p_i p + 1 < length (p_args p)" "p_args p ! (p_i p + 1) = Some ''out.txt''"
    "open_ret (demo_env 0 0 True) (Some ''out.txt'') [O_WRONLY, O_CREAT, O_TRUNC] \<noteq> -1"
    "execvp_ok (demo_env 0 0 True) (p_args p ! 0) (c_argv (take (p_i p) (p_args p)))"
    by (simp_all add: p_def demo_env_def)
  have av: "c_argv (take (p_i p) (p_args p)) = [''echo'', ''hi'']"
    by (simp add: p_def c_argv_def)
  note t = output_redirect_truncates [OF h,
       of "\<lambda>av. if av = [''echo'', ''hi''] then ''hi\<newline>'' else []"
          "[''out.txt'' \<mapsto> ''previous contents'']", unfolded av]
  have e: "(if [''echo'', ''hi''] = [''echo'', ''hi''] then ''hi\<newline>'' else []) = ''hi\<newline>''"
    by simp
  have "run_child (demo_env 0 0 True) (\<lambda>av. if av = [''echo'', ''hi''] then ''hi\<newline>'' else [])
         (run_child (demo_env 0 0 True) (\<lambda>av. if av = [''echo'', ''hi''] then ''hi\<newline>'' else [])
            [''out.txt'' \<mapsto> ''previous contents'']
            (fst (orchestrate (demo_env 0 0 True) p)))
         (fst (orchestrate (demo_env 0 0 True) p)) ''out.txt'' = Some ''hi\<newline>''"
    using conjunct2 [OF conjunct2 [OF t]] unfolding e .
  with ip show ?thesis by blast
qed

subsection \<open>The pipe owner waits for the first stage\<close>

text \<open>
  Claim C6. For a piped command whose \<^verbatim>\<open>pipe\<close> call succeeded, take any schedule of the
  pipe owner and the grandchild, and any moment of it. The owner has made a prefix of the
  calls \<^verbatim>\<open>pipe\<close>, \<^verbatim>\<open>fork\<close>, \<^verbatim>\<open>wait\<close>, \<^verbatim>\<open>dup2\<close> of the read end onto standard input, two
  \<^verbatim>\<open>close\<close> calls and \<^verbatim>\<open>execvp\<close> of the Second-Command; the grandchild has made a prefix
  of \<^verbatim>\<open>dup2\<close> of the write end onto standard output, two \<^verbatim>\<open>close\<close> calls and \<^verbatim>\<open>execvp\<close> of
  the First-Command. Every call the owner makes after its \<^verbatim>\<open>wait\<close> (the redirection of its
  standard input and the execution of the second stage among them) happens after the
  grandchild has ended, having made all those calls, and \<^verbatim>\<open>wait\<close> returns only after
  that end. The price of this order: when the first stage does not come to an end (its
  program runs forever, or its output does not fit into the pipe, which nobody reads yet),
  \<^verbatim>\<open>wait\<close> never returns and the owner makes none of the calls after it.
\<close>

theorem pipe_child_waits_before_second_stage:
  assumes "pipe_ret env \<noteq> -1" and "i < numArgs" and "numArgs \<le> length a"
    and "run (pipe_system m env a numArgs i) ws = Some d"
  shows "(\<exists>k. calls Parent (timeline d) =
               take k ([MkPipe, Fork, Wait, Dup2 (fd1_READ env) STDIN_FILENO,
                        Close (fd1_READ env), Close (fd1_WRITE env)] @
                       fst (exec_or_exit env (second_command a numArgs i ! 0)
                              (second_command a numArgs i)))) \<and>
         (\<exists>j. calls Child (timeline d) =
               take j ([Dup2 (fd1_WRITE env) STDOUT_FILENO, Close (fd1_WRITE env),
                        Close (fd1_READ env)] @
                       fst (exec_or_exit env (first_command a i ! 0) (first_command a i)))) \<and>
         (\<forall>pre x post. timeline d = pre @ Did Parent x # post \<and> Did Parent Wait \<in> set pre \<longrightarrow>
            ChildEnded \<in> set pre \<and>
            calls Child pre =
              [Dup2 (fd1_WRITE env) STDOUT_FILENO, Close (fd1_WRITE env), Close (fd1_READ env)] @
              fst (exec_or_exit env (first_command a i ! 0) (first_command a i)) \<and>
            stage_over m env (first_command a i)) \<and>
         (\<forall>pre post. timeline d = pre @ WaitReturned # post \<longrightarrow> ChildEnded \<in> set pre) \<and>
         (\<not> stage_over m env (first_command a i) \<longrightarrow>
            WaitReturned \<notin> set (timeline d) \<and>
            set (calls Parent (timeline d)) \<subseteq> {MkPipe, Fork, Wait} \<and>
            run_pipe (env\<lparr>gChildPid := 1, wait2_returns := False\<rparr>) a numArgs i =
              ([MkPipe, Fork, Wait], Blocked))"
proof -
  let ?B = "[Dup2 (fd1_READ env) STDIN_FILENO, Close (fd1_READ env), Close (fd1_WRITE env)] @
            fst (exec_or_exit env (second_command a numArgs i ! 0) (second_command a numArgs i))"
  let ?G = "[Dup2 (fd1_WRITE env) STDOUT_FILENO, Close (fd1_WRITE env), Close (fd1_READ env)] @
            fst (exec_or_exit env (first_command a i ! 0) (first_command a i))"
  let ?e = "stage_over m env (first_command a i)"
  have sh: "Fork \<notin> set [MkPipe]" "Wait \<notin> set [MkPipe]" "Fork \<notin> set ?B" "Wait \<notin> set ?B"
    using exec_or_exit_calls [of env "second_command a numArgs i ! 0" "second_command a numArgs i"]
    by simp_all
  have r: "run (start ([MkPipe] @ Fork # Wait # ?B) ?G ?e) ws = Some d"
    using assms(4) unfolding pipe_system_shape [OF assms(1,2,3)] .
  note s = duo_safety [OF sh r]
  have k: "\<exists>k. calls Parent (timeline d) = take k ([MkPipe, Fork, Wait] @ ?B)"
    using s by simp
  have j: "\<exists>j. calls Child (timeline d) = take j ?G" using s by blast
  have en: "ChildEnded \<in> set (timeline d) \<longrightarrow> ?e" using s by blast
  have w: "waits_in_order ?G (timeline d)" using s by blast
  have o: "ChildEnded \<in> set pre \<and> calls Child pre = ?G \<and> ?e"
    if "timeline d = pre @ Did Parent x # post" "Did Parent Wait \<in> set pre" for pre x post
  proof -
    from w that have a: "ChildEnded \<in> set pre" "calls Child pre = ?G"
      unfolding waits_in_order_def by blast+
    from a(1) that(1) have "ChildEnded \<in> set (timeline d)" by simp
    with en a show ?thesis by blast
  qed
  have ro: "ChildEnded \<in> set pre" if "timeline d = pre @ WaitReturned # post" for pre post
    using w that unfolding waits_in_order_def by blast
  have h: "WaitReturned \<notin> set (timeline d) \<and>
           set (calls Parent (timeline d)) \<subseteq> {MkPipe, Fork, Wait}" if "\<not> ?e"
    using s that by auto
  from k j o ro h run_pipe_owner_blocked [OF assms(1,2,3)] show ?thesis
    by (simp only: append_Cons append_Nil) blast
qed

theorem pipe_child_waits_before_second_stage_witness:
  "(\<exists>d. run (pipe_system (demo_machine ''total 0\<newline>'' 65536) (demo_env 0 0 True)
            ([Some ''ls'', Some ''-l'', Some ''|'', Some ''wc'', Some ''-l''] @ replicate 36 None)
            5 2)
          [Parent, Parent, Child, Parent, Child, Child, Child, Child, Parent, Parent, Parent,
           Parent, Parent] = Some d \<and>
        timeline d =
          [Did Parent MkPipe, Did Parent Fork, Did Child (Dup2 4 1), Did Parent Wait,
           Did Child (Close 4), Did Child (Close 3),
           Did Child (Execvp (Some ''ls'') [''ls'', ''-l'']), ChildEnded, WaitReturned] @
          Did Parent (Dup2 3 0) #
          [Did Parent (Close 3), Did Parent (Close 4),
           Did Parent (Execvp (Some ''wc'') [''wc'', ''-l''])] \<and>
        stage_over (demo_machine ''total 0\<newline>'' 65536) (demo_env 0 0 True)
          (first_command
             ([Some ''ls'', Some ''-l'', Some ''|'', Some ''wc'', Some ''-l''] @ replicate 36 None)
             2)) \<and>
   (\<exists>d. run (pipe_system (demo_machine ''0123456789'' 4) (demo_env 0 0 True)
            ([Some ''ls'', Some ''-l'', Some ''|'', Some ''wc'', Some ''-l''] @ replicate 36 None)
            5 2)
          [Parent, Parent, Child, Parent, Child, Child, Child] = Some d \<and>
        step d Parent = None \<and> step d Child = None \<and>
        WaitReturned \<notin> set (timeline d) \<and>
        set (calls Parent (timeline d)) \<subseteq> {MkPipe, Fork, Wait})"
proof -
  let ?a = "[Some ''ls'', Some ''-l'', Some ''|'', Some ''wc'', Some ''-l''] @ replicate 36 None"
  let ?pre = "[Did Parent MkPipe, Did Parent Fork, Did Child (Dup2 4 1), Did Parent Wait,
           Did Child (Close 4), Did Child (Close 3),
           Did Child (Execvp (Some ''ls'') [''ls'', ''-l'']), ChildEnded, WaitReturned]"
  let ?post = "[Did Parent (Close 3), Did Parent (Close 4),
           Did Parent (Execvp (Some ''wc'') [''wc'', ''-l''])]"
  have e: "pipe_ret (demo_env 0 0 True) \<noteq> -1" by (simp add: demo_env_def)
  have l: "(2::nat) < 5" "5 \<le> length ?a" by simp_all
  note t1 = pipe_child_waits_before_second_stage [OF e l run_ls_wc]
  have dec: "timeline \<lparr>parent_todo = [], parent_waiting = False, child_todo = [], child_life = Dead,
            child_ends = True,
            timeline =
              [Did Parent MkPipe, Did Parent Fork, Did Child (Dup2 4 1), Did Parent Wait,
               Did Child (Close 4), Did Child (Close 3),
               Did Child (Execvp (Some ''ls'') [''ls'', ''-l'']), ChildEnded, WaitReturned,
               Did Parent (Dup2 3 0), Did Parent (Close 3), Did Parent (Close 4),
               Did Parent (Execvp (Some ''wc'') [''wc'', ''-l''])]\<rparr> =
          ?pre @ Did Parent (Dup2 3 0) # ?post" by simp
  have wp: "Did Parent Wait \<in> set ?pre" by simp
  from t1 dec wp
  have over: "stage_over (demo_machine ''total 0\<newline>'' 65536) (demo_env 0 0 True)
          (first_command ?a 2)" by blast
  note t2 = pipe_child_waits_before_second_stage [OF e l run_ls_wc_full_pipe]
  have nover: "\<not> stage_over (demo_machine ''0123456789'' 4) (demo_env 0 0 True)
          (first_command ?a 2)"
    by (simp add: stage_over_def first_command_def demo_machine_def demo_env_def c_argv_def)
  from t2 nover
  have hang: "WaitReturned \<notin> set (timeline \<lparr>parent_todo = [Dup2 3 0, Close 3, Close 4, Execvp (Some ''wc'') [''wc'', ''-l'']],
            parent_waiting = True, child_todo = [], child_life = Alive, child_ends = False,
            timeline =
              [Did Parent MkPipe, Did Parent Fork, Did Child (Dup2 4 1), Did Parent Wait,
               Did Child (Close 4), Did Child (Close 3),
               Did Child (Execvp (Some ''ls'') [''ls'', ''-l''])]\<rparr>) \<and>
      set (calls Parent (timeline \<lparr>parent_todo = [Dup2 3 0, Close 3, Close 4, Execvp (Some ''wc'') [''wc'', ''-l'']],
            parent_waiting = True, child_todo = [], child_life = Alive, child_ends = False,
            timeline =
              [Did Parent MkPipe, Did Parent Fork, Did Child (Dup2 4 1), Did Parent Wait,
               Did Child (Close 4), Did Child (Close 3),
               Did Child (Execvp (Some ''ls'') [''ls'', ''-l''])]\<rparr>)) \<subseteq> {MkPipe, Fork, Wait}"
    by blast
  show ?thesis
    unfolding run_ls_wc run_ls_wc_full_pipe using over hang by simp
qed

subsection \<open>A failed execvp ends the process\<close>

text \<open>
  Claim C9. In every process that runs the code after \<^verbatim>\<open>fork\<close> (the child, the pipe
  owner, the grandchild), a call of \<^verbatim>\<open>execvp\<close> that names a program and fails is followed
  by exactly the error report and \<^verbatim>\<open>exit(1)\<close>: the process ends with status 1 and runs
  nothing after it. The shell itself (where \<^verbatim>\<open>fork\<close> did not return 0) makes no \<^verbatim>\<open>execvp\<close>
  call and no fault occurs in its iteration, which reaches the end of the loop body for
  every input that fits the buffer. The shell is not held up: when the \<^verbatim>\<open>execvp\<close> call
  of its child fails, every schedule of the shell and the child is bounded in length and
  can be continued until the shell has made all its calls, and the shell's \<^verbatim>\<open>wait\<close>
  returns only after the child has ended. Likewise, when the \<^verbatim>\<open>execvp\<close> call of the first
  stage of a pipeline fails, every schedule of the pipe owner and the grandchild can be
  continued until the owner has made all its calls. A call of \<^verbatim>\<open>execvp\<close> with a null
  name is not such a call: it is undefined and returns nothing.
\<close>

theorem exec_failure_exits_process:
  "(\<forall>name av. Execvp (Some name) av \<in> set (fst (orchestrate env p)) \<and>
              \<not> execvp_ok env (Some name) av \<longrightarrow>
      snd (orchestrate env p) = Exited 1 \<and>
      (\<exists>pre. fst (orchestrate env p) =
               pre @ [Execvp (Some name) av, Perror ''Exec failed'', Exit 1])) \<and>
   (childPid env \<noteq> 0 \<longrightarrow>
      snd (orchestrate env p) = Continues \<and>
      (\<forall>f av. Execvp f av \<notin> set (fst (orchestrate env p)))) \<and>
   (childPid env \<noteq> 0 \<and> buf \<noteq> [] \<and> length buf \<le> MAX_LINE - 1 \<and>
    length (args st) = argSize \<and> length (history st) \<le> MAX_LINE - 1 \<longrightarrow>
      fst (snd (loop_body env st buf)) = Continues) \<and>
   (\<forall>name av ws d.
      Execvp (Some name) av \<in> set (fst (orchestrate (owner_view m env p) p)) \<and>
      \<not> execvp_ok env (Some name) av \<and>
      run (shell_system m env p) ws = Some d \<longrightarrow>
        length ws \<le> steps_left (shell_system m env p) \<and>
        (parent_done d \<or> step d Parent \<noteq> None \<or> step d Child \<noteq> None) \<and>
        (\<not> p_bgProcess p \<longrightarrow>
           (\<forall>pre post. timeline d = pre @ WaitReturned # post \<longrightarrow> ChildEnded \<in> set pre))) \<and>
   (\<forall>name ws d.
      first_command (p_args p) (p_i p) ! 0 = Some name \<and>
      \<not> execvp_ok env (Some name) (c_argv (first_command (p_args p) (p_i p))) \<and>
      pipe_ret env \<noteq> -1 \<and> p_i p < p_numArgs p \<and> p_numArgs p \<le> length (p_args p) \<and>
      run (pipe_system m env (p_args p) (p_numArgs p) (p_i p)) ws = Some d \<longrightarrow>
        length ws \<le> steps_left (pipe_system m env (p_args p) (p_numArgs p) (p_i p)) \<and>
        (parent_done d \<or> step d Parent \<noteq> None \<or> step d Child \<noteq> None))"
proof -
  have one: "fst (snd (loop_body env st buf)) = Continues"
    if "childPid env \<noteq> 0" "buf \<noteq> []" "length buf \<le> MAX_LINE - 1"
       "length (args st) = argSize" "length (history st) \<le> MAX_LINE - 1"
    using loop_body_shell [OF that(2,3,1,4,5)] by auto
  have four: "length ws \<le> steps_left (shell_system m env p) \<and>
        (parent_done d \<or> step d Parent \<noteq> None \<or> step d Child \<noteq> None) \<and>
        (\<not> p_bgProcess p \<longrightarrow>
           (\<forall>pre post. timeline d = pre @ WaitReturned # post \<longrightarrow> ChildEnded \<in> set pre))"
    if x: "Execvp (Some name) av \<in> set (fst (orchestrate (owner_view m env p) p))"
      and f: "\<not> execvp_ok env (Some name) av"
      and r: "run (shell_system m env p) ws = Some d" for name av ws d
  proof -
    note l = run_live [OF shell_child_ends [OF x f] r]
    have ord: "ChildEnded \<in> set pre"
      if nb: "\<not> p_bgProcess p" and t: "timeline d = pre @ WaitReturned # post" for pre post
      using wait_returned_after_end [OF r [unfolded shell_system_foreground [OF nb]] t] .
    from l ord show ?thesis by blast
  qed
  have five: "length ws \<le> steps_left (pipe_system m env (p_args p) (p_numArgs p) (p_i p)) \<and>
        (parent_done d \<or> step d Parent \<noteq> None \<or> step d Child \<noteq> None)"
    if n: "first_command (p_args p) (p_i p) ! 0 = Some name"
      and f: "\<not> execvp_ok env (Some name) (c_argv (first_command (p_args p) (p_i p)))"
      and b: "pipe_ret env \<noteq> -1" "p_i p < p_numArgs p" "p_numArgs p \<le> length (p_args p)"
      and r: "run (pipe_system m env (p_args p) (p_numArgs p) (p_i p)) ws = Some d"
    for name ws d
  proof -
    have "child_ends (pipe_system m env (p_args p) (p_numArgs p) (p_i p))"
      unfolding pipe_system_shape [OF b] start_def using stage_over_failed [OF n f] by simp
    from run_live [OF this r] show ?thesis .
  qed
  from one four five show ?thesis
    using exec_checked_orchestrate [of env p] orchestrate_shell [of env p]
    unfolding exec_checked_def no_exec_def by blast
qed

theorem exec_failure_exits_process_witness:
  "(\<exists>p. interpret_line (replicate argSize None) ''nosuchprog -x'' = Inr p \<and>
       Execvp (Some ''nosuchprog'') [''nosuchprog'', ''-x'']
         \<in> set (fst (orchestrate (demo_env 0 0 False) p)) \<and>
       \<not> execvp_ok (demo_env 0 0 False) (Some ''nosuchprog'') [''nosuchprog'', ''-x''] \<and>
       snd (orchestrate (demo_env 0 0 False) p) = Exited 1 \<and>
       childPid (demo_env 7 0 False) \<noteq> 0 \<and>
       snd (orchestrate (demo_env 7 0 False) p) = Continues \<and>
       fst (snd (loop_body (demo_env 7 0 False) (init_state (replicate argSize None))
                   ''nosuchprog -x\<newline>'')) = Continues \<and>
       (\<exists>d. run (shell_system (demo_machine [] 0) (demo_env 7 0 False) p)
                [Parent, Child, Child, Child, Parent, Child, Parent] = Some d \<and>
            parent_done d \<and>
            timeline d =
              [Did Parent Fork, Did Child (Execvp (Some ''nosuchprog'') [''nosuchprog'', ''-x'']),
               Did Child (Perror ''Exec failed''), Did Child (Exit 1), Did Parent Wait,
               ChildEnded, WaitReturned]) \<and>
       length [Parent, Child, Child, Child, Parent, Child, Parent]
         \<le> steps_left (shell_system (demo_machine [] 0) (demo_env 7 0 False) p)) \<and>
   (\<exists>d. run (pipe_system (demo_machine [] 0) (demo_env 0 0 False)
            ([Some ''nosuchprog'', Some ''|'', Some ''wc''] @ replicate 38 None) 3 1)
          [Parent, Parent, Parent, Child, Child, Child, Child, Child, Child, Child] = Some d \<and>
        calls Child (timeline d) =
          [Dup2 4 1, Close 4, Close 3, Execvp (Some ''nosuchprog'') [''nosuchprog''],
           Perror ''Exec failed'', Exit 1] \<and>
        child_life d = Dead \<and> step d Parent \<noteq> None) \<and>
   length [Parent, Parent, Parent, Child, Child, Child, Child, Child, Child, Child]
     \<le> steps_left (pipe_system (demo_machine [] 0) (demo_env 0 0 False)
                      ([Some ''nosuchprog'', Some ''|'', Some ''wc''] @ replicate 38 None) 3 1)"
proof -
  define p where "p = \<lparr>p_bgProcess = False,
          p_args = [Some ''nosuchprog'', Some ''-x''] @ replicate 39 None,
          p_numArgs = 2, p_ioRedirect = 0, p_needPipe = 0, p_i = 2\<rparr>"
  let ?ws = "[Parent, Child, Child, Child, Parent, Child, Parent]"
  have m: "Execvp (Some ''nosuchprog'') [''nosuchprog'', ''-x'']
         \<in> set (fst (orchestrate (demo_env 0 0 False) p))"
    by (simp add: p_def orchestrate_def demo_env_def run_single_def exec_args_def rd_def
          exec_or_exit_def c_argv_def)
  have m': "Execvp (Some ''nosuchprog'') [''nosuchprog'', ''-x'']
         \<in> set (fst (orchestrate (owner_view (demo_machine [] 0) (demo_env 7 0 False) p) p))"
    by (simp add: p_def owner_view_def orchestrate_def demo_env_def run_single_def
          exec_args_def rd_def exec_or_exit_def c_argv_def)
  have n: "\<not> execvp_ok (demo_env 0 0 False) (Some ''nosuchprog'') [''nosuchprog'', ''-x'']"
    "\<not> execvp_ok (demo_env 7 0 False) (Some ''nosuchprog'') [''nosuchprog'', ''-x'']"
    by (simp_all add: demo_env_def)
  have c: "childPid (demo_env 7 0 False) \<noteq> 0" by (simp add: demo_env_def)
  have l: "''nosuchprog -x\<newline>'' \<noteq> []" "length ''nosuchprog -x\<newline>'' \<le> MAX_LINE - 1"
    "length (args (init_state (replicate argSize None))) = argSize"
    "length (history (init_state (replicate argSize None))) \<le> MAX_LINE - 1"
    by (simp_all add: MAX_LINE_def init_state_def)
  have r: "run (shell_system (demo_machine [] 0) (demo_env 7 0 False) p) ?ws =
     Some \<lparr>parent_todo = [], parent_waiting = False, child_todo = [], child_life = Dead,
            child_ends = True,
            timeline =
              [Did Parent Fork, Did Child (Execvp (Some ''nosuchprog'') [''nosuchprog'', ''-x'']),
               Did Child (Perror ''Exec failed''), Did Child (Exit 1), Did Parent Wait,
               ChildEnded, WaitReturned]\<rparr>"
    unfolding p_def by (rule run_nosuchprog)
  from exec_failure_exits_process [of "demo_env 0 0 False" p] m n(1)
  have a: "snd (orchestrate (demo_env 0 0 False) p) = Exited 1" by blast
  from exec_failure_exits_process [of "demo_env 7 0 False" p] c
  have b: "snd (orchestrate (demo_env 7 0 False) p) = Continues" by blast
  from exec_failure_exits_process [of "demo_env 7 0 False" p "''nosuchprog -x\<newline>''"
      "init_state (replicate argSize None)"] c l
  have d: "fst (snd (loop_body (demo_env 7 0 False) (init_state (replicate argSize None))
                   ''nosuchprog -x\<newline>'')) = Continues" by blast
  from exec_failure_exits_process [of "demo_env 7 0 False" p _ _ "demo_machine [] 0"] m' n(2) r
  have e: "length ?ws \<le> steps_left (shell_system (demo_machine [] 0) (demo_env 7 0 False) p)"
    by blast
  have x: "\<exists>d. run (shell_system (demo_machine [] 0) (demo_env 7 0 False) p) ?ws = Some d \<and>
            parent_done d \<and>
            timeline d =
              [Did Parent Fork, Did Child (Execvp (Some ''nosuchprog'') [''nosuchprog'', ''-x'']),
               Did Child (Perror ''Exec failed''), Did Child (Exit 1), Did Parent Wait,
               ChildEnded, WaitReturned]"
    unfolding r by (simp add: parent_done_def)
  have i: "interpret_line (replicate argSize None) ''nosuchprog -x'' = Inr p"
    unfolding parse_nosuch p_def ..
  from i m n(1) a b c d x e
  have shell: "\<exists>p. interpret_line (replicate argSize None) ''nosuchprog -x'' = Inr p \<and>
       Execvp (Some ''nosuchprog'') [''nosuchprog'', ''-x'']
         \<in> set (fst (orchestrate (demo_env 0 0 False) p)) \<and>
       \<not> execvp_ok (demo_env 0 0 False) (Some ''nosuchprog'') [''nosuchprog'', ''-x''] \<and>
       snd (orchestrate (demo_env 0 0 False) p) = Exited 1 \<and>
       childPid (demo_env 7 0 False) \<noteq> 0 \<and>
       snd (orchestrate (demo_env 7 0 False) p) = Continues \<and>
       fst (snd (loop_body (demo_env 7 0 False) (init_state (replicate argSize None))
                   ''nosuchprog -x\<newline>'')) = Continues \<and>
       (\<exists>d. run (shell_system (demo_machine [] 0) (demo_env 7 0 False) p) ?ws = Some d \<and>
            parent_done d \<and>
            timeline d =
              [Did Parent Fork, Did Child (Execvp (Some ''nosuchprog'') [''nosuchprog'', ''-x'']),
               Did Child (Perror ''Exec failed''), Did Child (Exit 1), Did Parent Wait,
               ChildEnded, WaitReturned]) \<and>
       length ?ws \<le> steps_left (shell_system (demo_machine [] 0) (demo_env 7 0 False) p)"
    by blast
  define q where "q = \<lparr>p_bgProcess = False,
          p_args = [Some ''nosuchprog'', Some ''|'', Some ''wc''] @ replicate 38 None,
          p_numArgs = 3, p_ioRedirect = 0, p_needPipe = 1, p_i = 1\<rparr>"
  let ?vs = "[Parent, Parent, Parent, Child, Child, Child, Child, Child, Child, Child]"
  let ?sys = "pipe_system (demo_machine [] 0) (demo_env 0 0 False)
                ([Some ''nosuchprog'', Some ''|'', Some ''wc''] @ replicate 38 None) 3 1"
  have q1: "first_command (p_args q) (p_i q) ! 0 = Some ''nosuchprog''"
    by (simp add: q_def first_command_def)
  have q2: "\<not> execvp_ok (demo_env 0 0 False) (Some ''nosuchprog'')
               (c_argv (first_command (p_args q) (p_i q)))"
    by (simp add: demo_env_def)
  have q3: "pipe_ret (demo_env 0 0 False) \<noteq> -1" "p_i q < p_numArgs q"
    "p_numArgs q \<le> length (p_args q)"
    by (simp_all add: q_def demo_env_def)
  have q4: "run (pipe_system (demo_machine [] 0) (demo_env 0 0 False) (p_args q) (p_numArgs q)
                   (p_i q)) ?vs =
     Some \<lparr>parent_todo = [Dup2 3 0, Close 3, Close 4, Execvp (Some ''wc'') [''wc''],
                           Perror ''Exec failed'', Exit 1],
            parent_waiting = True, child_todo = [], child_life = Dead, child_ends = True,
            timeline =
              [Did Parent MkPipe, Did Parent Fork, Did Parent Wait, Did Child (Dup2 4 1),
               Did Child (Close 4), Did Child (Close 3),
               Did Child (Execvp (Some ''nosuchprog'') [''nosuchprog'']),
               Did Child (Perror ''Exec failed''), Did Child (Exit 1), ChildEnded]\<rparr>"
    using run_nosuchprog_wc by (simp add: q_def)
  from exec_failure_exits_process [of "demo_env 0 0 False" q _ _ "demo_machine [] 0"]
    q1 q2 q3 q4
  have "length ?vs \<le> steps_left (pipe_system (demo_machine [] 0) (demo_env 0 0 False)
                                    (p_args q) (p_numArgs q) (p_i q))"
    by blast
  then have g: "length ?vs \<le> steps_left ?sys" by (simp add: q_def)
  have y: "\<exists>d. run ?sys ?vs = Some d \<and>
        calls Child (timeline d) =
          [Dup2 4 1, Close 4, Close 3, Execvp (Some ''nosuchprog'') [''nosuchprog''],
           Perror ''Exec failed'', Exit 1] \<and>
        child_life d = Dead \<and> step d Parent \<noteq> None"
    unfolding run_nosuchprog_wc by simp
  from shell y g show ?thesis by blast
qed

subsection \<open>An operator as the last token\<close>

text \<open>
  Claim C4 says that with the operator as the last token the child fails without passing
  an absent operand to \<^verbatim>\<open>open\<close> or \<^verbatim>\<open>execvp\<close>. The code does pass one. For \<^verbatim>\<open>cat <\<close> and
  \<^verbatim>\<open>ls >\<close> the child calls \<^verbatim>\<open>open\<close> with the null pointer stored after the last token;
  the comparison of that pointer with \<^verbatim>\<open>NULL\<close> (lines 241 and 258) comes after the call,
  and the child then reports the error and exits with status 1. For \<^verbatim>\<open>ls |\<close> the pipe
  owner, after the first stage has run, calls \<^verbatim>\<open>execvp\<close> with a null file pointer and an
  empty argument list; that path has no such comparison, the call is undefined, and the
  owner is killed by the fault without any report. No access is outside an array in any
  of the three runs.
\<close>

theorem operator_last_passes_null:
  "fst (loop_body (demo_env 0 0 False) (init_state (replicate argSize None)) ''cat <\<newline>'') =
     [Printf ''osh> '', Fflush, Fork, Open None [O_RDONLY] 438,
      Perror ''Input file failed'', Exit 1] \<and>
   fst (snd (loop_body (demo_env 0 0 False) (init_state (replicate argSize None))
               ''cat <\<newline>'')) = Exited 1 \<and>
   fst (loop_body (demo_env 0 0 False) (init_state (replicate argSize None)) ''ls >\<newline>'') =
     [Printf ''osh> '', Fflush, Fork, Open None [O_WRONLY, O_CREAT, O_TRUNC] 438,
      Perror ''Output file failed'', Exit 1] \<and>
   fst (snd (loop_body (demo_env 0 0 False) (init_state (replicate argSize None))
               ''ls >\<newline>'')) = Exited 1 \<and>
   fst (loop_body (demo_env 0 5 False) (init_state (replicate argSize None)) ''ls |\<newline>'') =
     [Printf ''osh> '', Fflush, Fork, MkPipe, Fork, Wait, Dup2 3 0, Close 3, Close 4,
      Execvp None []] \<and>
   fst (snd (loop_body (demo_env 0 5 False) (init_state (replicate argSize None))
               ''ls |\<newline>'')) = Fault NullDeref"
  by code_simp

subsection \<open>A line of spaces only\<close>

text \<open>
  Claim C5 says that a line of spaces only is treated as an empty line. The code treats
  it as a command: the empty line only prints the prompt and leaves the state as it
  was, while the line of one space is copied to \<^verbatim>\<open>history\<close>, the shell forks and waits,
  and the child calls \<^verbatim>\<open>execvp\<close> with the null pointer that tokenization stored in
  \<^verbatim>\<open>args[0]\<close>, a call that is undefined and kills the child. The test of line 79 looks at
  the first character only.
\<close>

theorem whitespace_line_spawns_child:
  "loop_body (demo_env 7 0 False) (init_state (replicate argSize None)) ''\<newline>'' =
     ([Printf ''osh> '', Fflush], Continues, init_state (replicate argSize None)) \<and>
   fst (loop_body (demo_env 7 0 False) (init_state (replicate argSize None)) '' \<newline>'') =
     [Printf ''osh> '', Fflush, Fork, Wait] \<and>
   history (snd (snd (loop_body (demo_env 7 0 False) (init_state (replicate argSize None))
     '' \<newline>''))) = '' '' \<and>
   fst (loop_body (demo_env 0 0 False) (init_state (replicate argSize None)) '' \<newline>'') =
     [Printf ''osh> '', Fflush, Fork, Execvp None []] \<and>
   fst (snd (loop_body (demo_env 0 0 False) (init_state (replicate argSize None))
               '' \<newline>'')) = Fault NullDeref"
  by code_simp

end
